theory Spec2Isabelle
  imports Main "HOL-Library.FSet"
begin

section \<open>Data model\<close>

text \<open>
  The crawler of \<^verbatim>\<open>web_scraper.py\<close>. A Python \<^verbatim>\<open>str\<close> is a \<open>string\<close>
  (one \<open>char\<close> per character, code points below 256). An exception is
  represented by its message, the text of \<^verbatim>\<open>str(e)\<close>.
\<close>

type_synonym exn = string

text \<open>The two fields of the result of \<^verbatim>\<open>urlparse\<close> that the program reads.\<close>

record url_parts =
  scheme :: string
  netloc :: string

text \<open>
  The tree that \<^verbatim>\<open>BeautifulSoup(response.content, 'html.parser')\<close> builds:
  text strings, comments (and the other string kinds that \<^verbatim>\<open>get_text\<close>
  leaves out), and tags with a name, an attribute dictionary (an association
  list, the first binding of a key is its value) and contents.
\<close>

datatype node =
  Text string
| Comment string
| Tag string "(string \<times> string) list" "node list"

text \<open>
  What lines 48 to 51 of \<^verbatim>\<open>scrape_page\<close> obtain for a URL when nothing
  raises: the status code of the response and the parsed document.
\<close>

record response =
  status_code :: nat
  soup :: "node list"

text \<open>
  The libraries and the network, as parameters of the model.
  \<open>urlparse\<close> and \<open>urljoin\<close> are those of \<^verbatim>\<open>urllib.parse\<close>
  (\<open>Inl\<close> when they raise). \<open>fetch k u\<close> is the outcome of
  \<^verbatim>\<open>requests.get\<close>, \<^verbatim>\<open>raise_for_status\<close> and the parser on URL \<open>u\<close>,
  issued as request number \<open>k\<close> of the run (\<open>Inl\<close> when one of them raises):
  the network may answer differently each time.
\<close>

record library =
  urlparse :: "string \<Rightarrow> exn + url_parts"
  urljoin :: "string \<Rightarrow> string \<Rightarrow> exn + string"
  fetch :: "nat \<Rightarrow> string \<Rightarrow> exn + response"

text \<open>The sidebar inputs (the delay only feeds \<^verbatim>\<open>time.sleep\<close>).\<close>

record config =
  base_url :: string
  max_pages :: nat
  include_external :: bool

text \<open>
  The dictionary returned by \<^verbatim>\<open>scrape_page\<close>. The title is \<open>None\<close> when
  the Python value is \<^verbatim>\<open>None\<close>.
\<close>

record page_data =
  url :: string
  title :: "string option"
  content :: string
  links :: "string list"
  status :: nat

text \<open>The three entries of \<^verbatim>\<open>st.session_state\<close>.\<close>

record session_state =
  scraped_data :: "page_data list"
  visited_urls :: "string fset"
  queue :: "string list"

section \<open>Helper functions\<close>

definition is_valid_url :: "library \<Rightarrow> string \<Rightarrow> bool" where
  "is_valid_url lib u =
     (case urlparse lib u of
        Inl e \<Rightarrow> False
      | Inr result \<Rightarrow> scheme result \<noteq> [] \<and> netloc result \<noteq> [])"

definition get_domain :: "library \<Rightarrow> string \<Rightarrow> exn + string" where
  "get_domain lib u =
     (case urlparse lib u of Inl e \<Rightarrow> Inl e | Inr result \<Rightarrow> Inr (netloc result))"

section \<open>The document operations used by the scraper\<close>

text \<open>
  \<^verbatim>\<open>for script in soup(["script", "style"]): script.decompose()\<close>:
  every tag with one of the names is removed from the tree, with its contents.
\<close>

fun decompose_all :: "string list \<Rightarrow> node \<Rightarrow> node list" where
  "decompose_all names (Tag n attrs cs) =
     (if n \<in> set names then []
      else [Tag n attrs (concat (map (decompose_all names) cs))])"
| "decompose_all names (Text s) = [Text s]"
| "decompose_all names (Comment s) = [Comment s]"

text \<open>The descendants of a node in document order, the node first.\<close>

fun descendants :: "node \<Rightarrow> node list" where
  "descendants (Tag n attrs cs) = Tag n attrs cs # concat (map descendants cs)"
| "descendants (Text s) = [Text s]"
| "descendants (Comment s) = [Comment s]"

text \<open>\<^verbatim>\<open>soup.title\<close>: the first tag named title, if there is one.\<close>

fun is_tag_named :: "string \<Rightarrow> node \<Rightarrow> bool" where
  "is_tag_named nm (Tag n attrs cs) = (n = nm)"
| "is_tag_named nm (Text s) = False"
| "is_tag_named nm (Comment s) = False"

definition find_tag :: "string \<Rightarrow> node list \<Rightarrow> node option" where
  "find_tag nm doc = List.find (is_tag_named nm) (concat (map descendants doc))"

text \<open>
  \<^verbatim>\<open>.string\<close>: a tag with exactly one child has that child's string,
  any other tag has \<^verbatim>\<open>None\<close>.
\<close>

fun node_string :: "node \<Rightarrow> string option" where
  "node_string (Text s) = Some s"
| "node_string (Comment s) = Some s"
| "node_string (Tag n attrs cs) =
     (case cs of [c] \<Rightarrow> node_string c | _ \<Rightarrow> None)"

text \<open>\<^verbatim>\<open>str.strip()\<close> and the characters it removes.\<close>

definition is_space :: "char \<Rightarrow> bool" where
  "is_space c =
     (let k = (of_char c :: nat)
      in (9 \<le> k \<and> k \<le> 13) \<or> (28 \<le> k \<and> k \<le> 32) \<or> k = 133 \<or> k = 160)"

definition strip :: "string \<Rightarrow> string" where
  "strip s = rev (dropWhile is_space (rev (dropWhile is_space s)))"

fun join :: "string \<Rightarrow> string list \<Rightarrow> string" where
  "join sep [] = []"
| "join sep [x] = x"
| "join sep (x # y # ys) = x @ sep @ join sep (y # ys)"

text \<open>
  \<^verbatim>\<open>soup.get_text(separator=' ', strip=True)\<close>: the text strings of the
  document in order, each one stripped, the empty ones left out, joined by
  the separator.
\<close>

fun text_of :: "node \<Rightarrow> string list" where
  "text_of (Text s) = [s]"
| "text_of (Comment s) = []"
| "text_of (Tag n attrs cs) = []"

definition text_nodes :: "node list \<Rightarrow> string list" where
  "text_nodes doc = concat (map text_of (concat (map descendants doc)))"

definition all_strings :: "node list \<Rightarrow> string list" where
  "all_strings doc = filter (\<lambda>s. s \<noteq> []) (map strip (text_nodes doc))"

definition get_text :: "string \<Rightarrow> node list \<Rightarrow> string" where
  "get_text sep doc = join sep (all_strings doc)"

text \<open>
  \<^verbatim>\<open>soup.find_all('a', href=True)\<close> followed by \<^verbatim>\<open>link['href']\<close>:
  the href values of the anchors that have one, in document order.
\<close>

fun href_of :: "node \<Rightarrow> string list" where
  "href_of (Tag n attrs cs) =
     (if n = ''a'' then (case map_of attrs ''href'' of None \<Rightarrow> [] | Some h \<Rightarrow> [h]) else [])"
| "href_of (Text s) = []"
| "href_of (Comment s) = []"

definition find_all_hrefs :: "node list \<Rightarrow> string list" where
  "find_all_hrefs doc = concat (map href_of (concat (map descendants doc)))"

section \<open>scrape\_page\<close>

text \<open>The loop over the anchors (lines 62 to 66); \<open>acc\<close> is the list \<^verbatim>\<open>links\<close>.\<close>

fun collect_links :: "library \<Rightarrow> string \<Rightarrow> string list \<Rightarrow> string list \<Rightarrow> exn + string list" where
  "collect_links lib u acc [] = Inr acc"
| "collect_links lib u acc (h # hs) =
     (case urljoin lib u h of
        Inl e \<Rightarrow> Inl e
      | Inr full_url \<Rightarrow>
          collect_links lib u (if is_valid_url lib full_url then acc @ [full_url] else acc) hs)"

text \<open>The body of the \<^verbatim>\<open>try\<close> block; \<open>k\<close> is the number of requests made before.\<close>

definition scrape_body :: "library \<Rightarrow> nat \<Rightarrow> string \<Rightarrow> exn + page_data" where
  "scrape_body lib k u =
     (case fetch lib k u of
        Inl e \<Rightarrow> Inl e
      | Inr resp \<Rightarrow>
          (let doc = concat (map (decompose_all [''script'', ''style'']) (soup resp));
               ttl = (case find_tag ''title'' doc of
                        Some t \<Rightarrow> node_string t
                      | None \<Rightarrow> Some ''No Title'');
               text_content = take 5000 (get_text '' '' doc)
           in case collect_links lib u [] (find_all_hrefs doc) of
                Inl e \<Rightarrow> Inl e
              | Inr ls \<Rightarrow>
                  Inr \<lparr>url = u, title = ttl, content = text_content,
                       links = ls, status = status_code resp\<rparr>))"

definition scrape_page :: "library \<Rightarrow> nat \<Rightarrow> string \<Rightarrow> page_data" where
  "scrape_page lib k u =
     (case scrape_body lib k u of
        Inr page \<Rightarrow> page
      | Inl e \<Rightarrow>
          \<lparr>url = u, title = Some ''Error'',
           content = ''Error scraping page: '' @ e,
           links = [], status = 0\<rparr>)"

section \<open>process\_queue\<close>

text \<open>
  The loop over \<^verbatim>\<open>page_data['links']\<close> (lines 103 to 106); \<open>q\<close> is the
  queue. \<^verbatim>\<open>get_domain\<close> is only called when \<^verbatim>\<open>include_external\<close> is
  false, and what it raises leaves the loop.
\<close>

fun enqueue_links ::
  "library \<Rightarrow> config \<Rightarrow> string \<Rightarrow> string fset \<Rightarrow> string list \<Rightarrow> string list \<Rightarrow> exn + string list" where
  "enqueue_links lib cfg base_domain visited q [] = Inr q"
| "enqueue_links lib cfg base_domain visited q (link # ls) =
     (if link |\<notin>| visited then
        (if include_external cfg then
           enqueue_links lib cfg base_domain visited (q @ [link]) ls
         else
           (case get_domain lib link of
              Inl e \<Rightarrow> Inl e
            | Inr d \<Rightarrow>
                enqueue_links lib cfg base_domain visited
                  (if d = base_domain then q @ [link] else q) ls))
      else enqueue_links lib cfg base_domain visited q ls)"

definition loop_cond :: "config \<Rightarrow> session_state \<Rightarrow> bool" where
  "loop_cond cfg s = (queue s \<noteq> [] \<and> fcard (visited_urls s) < max_pages cfg)"

text \<open>One iteration of the \<^verbatim>\<open>while\<close> loop (lines 90 to 113).\<close>

definition loop_body :: "library \<Rightarrow> config \<Rightarrow> string \<Rightarrow> session_state \<Rightarrow> exn + session_state" where
  "loop_body lib cfg base_domain s =
     (case queue s of
        [] \<Rightarrow> Inl ''pop from an empty deque''
      | current_url # rest \<Rightarrow>
          (if current_url |\<in>| visited_urls s then Inr (s\<lparr>queue := rest\<rparr>)
           else
             (let visited = finsert current_url (visited_urls s);
                  page = scrape_page lib (length (scraped_data s)) current_url
              in case enqueue_links lib cfg base_domain visited rest (links page) of
                   Inl e \<Rightarrow> Inl e
                 | Inr q \<Rightarrow>
                     Inr \<lparr>scraped_data = scraped_data s @ [page],
                          visited_urls = visited, queue = q\<rparr>)))"

function process_queue :: "library \<Rightarrow> config \<Rightarrow> string \<Rightarrow> session_state \<Rightarrow> exn + session_state" where
  "process_queue lib cfg base_domain s =
     (if loop_cond cfg s then
        (case loop_body lib cfg base_domain s of
           Inl e \<Rightarrow> Inl e
         | Inr s' \<Rightarrow> process_queue lib cfg base_domain s')
      else Inr s)"
  by pat_completeness auto
termination
proof (relation "measures [\<lambda>(lib, cfg, d, s). max_pages cfg - fcard (visited_urls s),
                           \<lambda>(lib, cfg, d, s). length (queue s)]")
  show "wf (measures [\<lambda>(lib, cfg, d, s). max_pages cfg - fcard (visited_urls s),
                      \<lambda>(lib :: library, cfg, d :: string, s). length (queue s)])"
    by simp
next
  fix lib :: library and cfg :: config and base_domain :: string
    and s s' :: session_state
  assume c: "loop_cond cfg s" and b: "loop_body lib cfg base_domain s = Inr s'"
  from c obtain cur rest where q: "queue s = cur # rest"
    by (cases "queue s") (auto simp: loop_cond_def)
  from c have lt: "fcard (visited_urls s) < max_pages cfg"
    by (simp add: loop_cond_def)
  show "((lib, cfg, base_domain, s'), (lib, cfg, base_domain, s))
        \<in> measures [\<lambda>(lib, cfg, d, s). max_pages cfg - fcard (visited_urls s),
                    \<lambda>(lib, cfg, d, s). length (queue s)]"
  proof (cases "cur |\<in>| visited_urls s")
    case True
    with b q have "s' = s\<lparr>queue := rest\<rparr>"
      by (simp add: loop_body_def)
    with q show ?thesis by simp
  next
    case False
    with b q have "visited_urls s' = finsert cur (visited_urls s)"
      by (auto simp: loop_body_def Let_def split: sum.splits)
    with False have "fcard (visited_urls s') = Suc (fcard (visited_urls s))"
      by (simp add: fcard_finsert_disjoint)
    with lt have "max_pages cfg - fcard (visited_urls s') < max_pages cfg - fcard (visited_urls s)"
      by arith
    then show ?thesis by simp
  qed
qed

declare process_queue.simps [simp del]

text \<open>
  The state at the \<open>n\<close>-th iteration boundary of the loop started in \<open>s\<close>,
  when the loop gets that far.
\<close>

fun boundary :: "library \<Rightarrow> config \<Rightarrow> string \<Rightarrow> nat \<Rightarrow> session_state \<Rightarrow> session_state option" where
  "boundary lib cfg base_domain 0 s = Some s"
| "boundary lib cfg base_domain (Suc n) s =
     (if loop_cond cfg s then
        (case loop_body lib cfg base_domain s of
           Inl e \<Rightarrow> None
         | Inr s' \<Rightarrow> boundary lib cfg base_domain n s')
      else None)"

section \<open>The start handler\<close>

datatype outcome =
  ValidationError string session_state
| Raised exn
| Completed session_state

definition fresh :: "config \<Rightarrow> session_state" where
  "fresh cfg = \<lparr>scraped_data = [], visited_urls = {||}, queue = [base_url cfg]\<rparr>"

definition start :: "library \<Rightarrow> config \<Rightarrow> session_state \<Rightarrow> outcome" where
  "start lib cfg s =
     (if base_url cfg = [] then ValidationError ''Please enter a valid URL'' s
      else if \<not> is_valid_url lib (base_url cfg) then
        ValidationError ''Please enter a valid URL including http:// or https://'' s
      else
        (case get_domain lib (base_url cfg) of
           Inl e \<Rightarrow> Raised e
         | Inr base_domain \<Rightarrow>
             (case process_queue lib cfg base_domain (fresh cfg) of
                Inl e \<Rightarrow> Raised e
              | Inr s' \<Rightarrow> Completed s')))"

section \<open>Whitespace-collapsed text\<close>

text \<open>
  A text in which every run of whitespace has been collapsed to a single
  space: each whitespace character is a space, and none follows another.
\<close>

fun ws_collapsed :: "string \<Rightarrow> bool" where
  "ws_collapsed [] = True"
| "ws_collapsed [c] = (is_space c \<longrightarrow> c = CHR '' '')"
| "ws_collapsed (c # d # cs) =
     ((is_space c \<longrightarrow> c = CHR '' '' \<and> \<not> is_space d) \<and> ws_collapsed (d # cs))"

section \<open>An example library and an example site\<close>

text \<open>
  A concrete library on which the model is run in the examples below.
  \<open>ex_urlparse\<close> computes the scheme and the network location the way
  \<^verbatim>\<open>urllib.parse.urlsplit\<close> does (leading control characters and spaces
  dropped, tabs and line breaks removed, a scheme of scheme characters before
  the first colon, a location after \<^verbatim>\<open>//\<close> up to the next \<^verbatim>\<open>/\<close>,
  \<^verbatim>\<open>?\<close> or \<^verbatim>\<open>#\<close>, unbalanced brackets raise).
\<close>

definition is_alpha :: "char \<Rightarrow> bool" where
  "is_alpha c =
     (let k = (of_char c :: nat) in (65 \<le> k \<and> k \<le> 90) \<or> (97 \<le> k \<and> k \<le> 122))"

definition is_scheme_char :: "char \<Rightarrow> bool" where
  "is_scheme_char c =
     (let k = (of_char c :: nat)
      in is_alpha c \<or> (48 \<le> k \<and> k \<le> 57) \<or> c \<in> set ''+-.'')"

definition lower :: "char \<Rightarrow> char" where
  "lower c =
     (let k = (of_char c :: nat) in if 65 \<le> k \<and> k \<le> 90 then char_of (k + 32) else c)"

definition ex_urlparse :: "string \<Rightarrow> exn + url_parts" where
  "ex_urlparse u0 =
     (let u1 = dropWhile (\<lambda>c. (of_char c :: nat) \<le> 32) u0;
          u = filter (\<lambda>c. (of_char c :: nat) \<notin> {9, 10, 13}) u1;
          pre = takeWhile (\<lambda>c. c \<noteq> CHR '':'') u;
          has_scheme = (CHR '':'' \<in> set u \<and> pre \<noteq> [] \<and> is_alpha (hd pre)
                        \<and> list_all is_scheme_char pre);
          sch = (if has_scheme then map lower pre else []);
          rest = (if has_scheme then drop (Suc (length pre)) u else u);
          loc = (if take 2 rest = ''//''
                 then takeWhile (\<lambda>c. c \<notin> set ''/?#'') (drop 2 rest) else [])
      in if (CHR ''['' \<in> set loc) \<noteq> (CHR '']'' \<in> set loc) then Inl ''Invalid IPv6 URL''
         else Inr \<lparr>scheme = sch, netloc = loc\<rparr>)"

text \<open>
  \<open>ex_urljoin\<close> follows \<^verbatim>\<open>urllib.parse.urljoin\<close> on the references of
  the example site: an empty reference is the base, a reference with a scheme
  of its own that differs from the base's or is not a hierarchical one is
  returned as it is, so is a reference with a network location, and a path is
  put behind the base's scheme and location.
\<close>

definition uses_relative :: "string list" where
  "uses_relative = [[], ''ftp'', ''http'', ''gopher'', ''nntp'', ''imap'', ''wais'',
     ''file'', ''https'', ''shttp'', ''mms'', ''prospero'', ''rtsp'', ''rtsps'', ''rtspu'',
     ''sftp'', ''svn'', ''svn+ssh'', ''ws'', ''wss'']"

definition ex_urljoin :: "string \<Rightarrow> string \<Rightarrow> exn + string" where
  "ex_urljoin base ref =
     (if ref = [] then Inr base
      else if base = [] then Inr ref
      else
        (case ex_urlparse base of
           Inl e \<Rightarrow> Inl e
         | Inr b \<Rightarrow>
             (case ex_urlparse ref of
                Inl e \<Rightarrow> Inl e
              | Inr r \<Rightarrow>
                  (let sch = (if scheme r = [] then scheme b else scheme r)
                   in if sch \<noteq> scheme b \<or> sch \<notin> set uses_relative then Inr ref
                      else if netloc r \<noteq> [] then Inr ref
                      else Inr (scheme b @ ''://'' @ netloc b
                                @ (if take 1 ref = ''/'' then ref else ''/'' @ ref))))))"

text \<open>
  The site: a home page, a page with an empty title, a page whose only
  anchors are a mail address and a script, and nothing else that answers.
\<close>

definition ex_home :: "node list" where
  "ex_home =
     [Tag ''html'' []
        [Tag ''head'' []
           [Tag ''title'' [] [Text ''Example Domain''],
            Tag ''script'' [] [Text ''var x = 1;'']],
         Tag ''body'' []
           [Tag ''p'' [] [Text ''Hello  world ''],
            Tag ''a'' [(''href'', ''https://example.com/about/'')] [Text ''More''],
            Tag ''a'' [(''href'', ''/about'')] [Text ''About''],
            Tag ''a'' [(''href'', ''https://example.com/about'')] [Text ''Again''],
            Tag ''a'' [(''href'', ''https://other.org/'')] [Text ''Other''],
            Tag ''a'' [(''href'', ''mailto:test@example.com'')] [Text ''Mail'']]]]"

definition ex_about :: "node list" where
  "ex_about =
     [Tag ''html'' []
        [Tag ''head'' [] [Tag ''title'' [] []],
         Tag ''body'' [] [Tag ''p'' [] [Text ''About us'']]]]"

definition ex_contact :: "node list" where
  "ex_contact =
     [Tag ''html'' []
        [Tag ''body'' []
           [Tag ''a'' [(''href'', ''mailto:test@example.com'')] [Text ''Mail''],
            Tag ''a'' [(''href'', ''javascript:void(0)'')] [Text ''Menu'']]]]"

definition ex_fetch :: "nat \<Rightarrow> string \<Rightarrow> exn + response" where
  "ex_fetch k u =
     (if u = ''https://example.com'' then Inr \<lparr>status_code = 200, soup = ex_home\<rparr>
      else if u = ''https://example.com/about'' then Inr \<lparr>status_code = 200, soup = ex_about\<rparr>
      else if u = ''https://example.com/contact'' then
        Inr \<lparr>status_code = 200, soup = ex_contact\<rparr>
      else Inl ''404 Client Error: Not Found for url'')"

definition ex_lib :: library where
  "ex_lib = \<lparr>urlparse = ex_urlparse, urljoin = ex_urljoin, fetch = ex_fetch\<rparr>"

text \<open>A library whose network answers every request with one document.\<close>

definition page_lib :: "node list \<Rightarrow> library" where
  "page_lib doc =
     \<lparr>urlparse = ex_urlparse, urljoin = ex_urljoin,
      fetch = (\<lambda>k u. Inr \<lparr>status_code = 200, soup = doc\<rparr>)\<rparr>"

definition ex_cfg :: "string \<Rightarrow> nat \<Rightarrow> bool \<Rightarrow> config" where
  "ex_cfg u n ext = \<lparr>base_url = u, max_pages = n, include_external = ext\<rparr>"

text \<open>The records and the states of a crawl of the example site from its home page.\<close>

definition ex_home_page :: page_data where
  "ex_home_page =
     \<lparr>url = ''https://example.com'', title = Some ''Example Domain'',
      content = ''Example Domain Hello  world More About Again Other Mail'',
      links = [''https://example.com/about/'', ''https://example.com/about'',
               ''https://example.com/about'', ''https://other.org/''],
      status = 200\<rparr>"

definition ex_about_page :: page_data where
  "ex_about_page =
     \<lparr>url = ''https://example.com/about'', title = None,
      content = ''About us'', links = [], status = 200\<rparr>"

definition ex_missing_page :: page_data where
  "ex_missing_page =
     \<lparr>url = ''https://example.com/about/'', title = Some ''Error'',
      content = ''Error scraping page: 404 Client Error: Not Found for url'',
      links = [], status = 0\<rparr>"

definition ex_s1 :: session_state where
  "ex_s1 =
     \<lparr>scraped_data = [ex_home_page],
      visited_urls = {|''https://example.com''|},
      queue = [''https://example.com/about/'', ''https://example.com/about'',
               ''https://example.com/about'']\<rparr>"

definition ex_s2 :: session_state where
  "ex_s2 =
     \<lparr>scraped_data = [ex_home_page, ex_missing_page],
      visited_urls = {|''https://example.com/about/'', ''https://example.com''|},
      queue = [''https://example.com/about'', ''https://example.com/about'']\<rparr>"

definition ex_s3 :: session_state where
  "ex_s3 =
     \<lparr>scraped_data = [ex_home_page, ex_missing_page, ex_about_page],
      visited_urls = {|''https://example.com/about'', ''https://example.com/about/'',
                       ''https://example.com''|},
      queue = [''https://example.com/about'']\<rparr>"

definition ex_s4 :: session_state where
  "ex_s4 = ex_s3\<lparr>queue := []\<rparr>"


section \<open>Properties of the operations\<close>

subsection \<open>Links and scraping\<close>

lemma collect_links_valid:
  "collect_links lib u acc hs = Inr ls \<Longrightarrow> \<forall>l\<in>set acc. is_valid_url lib l
   \<Longrightarrow> \<forall>l\<in>set ls. is_valid_url lib l"
proof (induction hs arbitrary: acc)
  case Nil
  then show ?case by simp
next
  case (Cons h hs)
  from Cons.prems(1) obtain f where f: "urljoin lib u h = Inr f"
    by (cases "urljoin lib u h") auto
  let ?acc = "if is_valid_url lib f then acc @ [f] else acc"
  from Cons.prems(1) f have "collect_links lib u ?acc hs = Inr ls"
    by simp
  moreover from Cons.prems(2) have "\<forall>l\<in>set ?acc. is_valid_url lib l"
    by simp
  ultimately show ?case by (rule Cons.IH)
qed

lemma collect_links_eq:
  "collect_links lib u acc hs = Inr ls \<Longrightarrow>
   (\<forall>h\<in>set hs. \<exists>f. urljoin lib u h = Inr f) \<and>
   ls = acc @ filter (is_valid_url lib) (map (\<lambda>h. projr (urljoin lib u h)) hs)"
proof (induction hs arbitrary: acc)
  case Nil
  then show ?case by simp
next
  case (Cons h hs)
  from Cons.prems obtain f where f: "urljoin lib u h = Inr f"
    by (cases "urljoin lib u h") auto
  with Cons.prems have
    "collect_links lib u (if is_valid_url lib f then acc @ [f] else acc) hs = Inr ls"
    by simp
  from Cons.IH [OF this] f show ?case by simp
qed

lemma scrape_body_Inr:
  assumes "scrape_body lib k u = Inr p"
  obtains resp ls where "fetch lib k u = Inr resp"
    and "collect_links lib u []
           (find_all_hrefs (concat (map (decompose_all [''script'', ''style'']) (soup resp)))) = Inr ls"
    and "p = \<lparr>url = u,
              title = (case find_tag ''title''
                              (concat (map (decompose_all [''script'', ''style'']) (soup resp))) of
                         Some t \<Rightarrow> node_string t
                       | None \<Rightarrow> Some ''No Title''),
              content = take 5000 (get_text '' ''
                          (concat (map (decompose_all [''script'', ''style'']) (soup resp)))),
              links = ls, status = status_code resp\<rparr>"
proof (cases "fetch lib k u")
  case (Inl e)
  with assms show ?thesis by (simp add: scrape_body_def)
next
  case (Inr resp)
  let ?doc = "concat (map (decompose_all [''script'', ''style'']) (soup resp))"
  show ?thesis
  proof (cases "collect_links lib u [] (find_all_hrefs ?doc)")
    case (Inl e)
    with assms Inr show ?thesis by (simp add: scrape_body_def Let_def)
  next
    case c: (Inr ls)
    with assms Inr have "p = \<lparr>url = u,
              title = (case find_tag ''title'' ?doc of
                         Some t \<Rightarrow> node_string t
                       | None \<Rightarrow> Some ''No Title''),
              content = take 5000 (get_text '' '' ?doc),
              links = ls, status = status_code resp\<rparr>"
      by (simp add: scrape_body_def Let_def)
    with Inr c show ?thesis by (rule that)
  qed
qed

lemma scrape_body_url: "scrape_body lib k u = Inr p \<Longrightarrow> url p = u"
  by (erule scrape_body_Inr) simp

lemma scrape_body_links_valid:
  assumes "scrape_body lib k u = Inr p" and "l \<in> set (links p)"
  shows "is_valid_url lib l"
proof -
  from assms(1) obtain hs where "collect_links lib u [] hs = Inr (links p)"
    by (rule scrape_body_Inr) simp
  from collect_links_valid [OF this] assms(2) show ?thesis by simp
qed

text \<open>
  The title of a page scraped without failure: the string of the first title
  tag (which is \<open>None\<close> when the tag does not have exactly one child), and
  the sentinel \<^verbatim>\<open>No Title\<close> when there is no title tag.
\<close>

lemma scrape_body_title:
  assumes "scrape_body lib k u = Inr p" and "fetch lib k u = Inr resp"
  shows "title p =
     (case find_tag ''title'' (concat (map (decompose_all [''script'', ''style'']) (soup resp))) of
        Some t \<Rightarrow> node_string t
      | None \<Rightarrow> Some ''No Title'')"
  using assms by (auto elim!: scrape_body_Inr)

lemma scrape_page_url: "url (scrape_page lib k u) = u"
  by (cases "scrape_body lib k u") (simp_all add: scrape_page_def scrape_body_url)

lemma scrape_page_links_valid: "\<forall>l\<in>set (links (scrape_page lib k u)). is_valid_url lib l"
  by (cases "scrape_body lib k u") (simp_all add: scrape_page_def scrape_body_links_valid)

lemma valid_get_domain: "is_valid_url lib l \<Longrightarrow> \<exists>d. get_domain lib l = Inr d"
  by (auto simp: is_valid_url_def get_domain_def split: sum.splits)

lemma enqueue_links_total:
  "\<forall>l\<in>set ls. is_valid_url lib l \<Longrightarrow> \<exists>q'. enqueue_links lib cfg d vis q ls = Inr q'"
proof (induction ls arbitrary: q)
  case Nil
  then show ?case by simp
next
  case (Cons l ls)
  then obtain dl where "get_domain lib l = Inr dl"
    using valid_get_domain by fastforce
  with Cons show ?case by simp
qed

lemma enqueue_links_eq:
  "enqueue_links lib cfg d vis q ls = Inr q' \<Longrightarrow>
   q' = q @ filter (\<lambda>l. l |\<notin>| vis \<and> (include_external cfg \<or> get_domain lib l = Inr d)) ls"
proof (induction ls arbitrary: q)
  case Nil
  then show ?case by simp
next
  case (Cons l ls)
  let ?keep = "l |\<notin>| vis \<and> (include_external cfg \<or> get_domain lib l = Inr d)"
  from Cons.prems have "enqueue_links lib cfg d vis (if ?keep then q @ [l] else q) ls = Inr q'"
    by (auto split: sum.splits if_splits)
  from Cons.IH [OF this] show ?case by simp
qed

lemma loop_body_total:
  assumes "queue s \<noteq> []"
  shows "\<exists>s'. loop_body lib cfg d s = Inr s'"
proof -
  from assms obtain cur rest where q: "queue s = cur # rest"
    by (cases "queue s") auto
  obtain q' where "enqueue_links lib cfg d (finsert cur (visited_urls s)) rest
      (links (scrape_page lib (length (scraped_data s)) cur)) = Inr q'"
    using enqueue_links_total [OF scrape_page_links_valid] by blast
  with q show ?thesis
    by (simp add: loop_body_def Let_def)
qed

lemma process_queue_total: "\<exists>s'. process_queue lib cfg d s = Inr s'"
proof (induction lib cfg d s rule: process_queue.induct)
  case (1 lib cfg d s)
  show ?case
  proof (cases "loop_cond cfg s")
    case False
    then show ?thesis by (subst process_queue.simps) simp
  next
    case True
    then have "queue s \<noteq> []" by (simp add: loop_cond_def)
    from loop_body_total [OF this] obtain s1 where b: "loop_body lib cfg d s = Inr s1" ..
    from "1" [OF True b] obtain s' where "process_queue lib cfg d s1 = Inr s'" ..
    with True b show ?thesis by (subst process_queue.simps) simp
  qed
qed

subsection \<open>The two shapes of an iteration\<close>

lemma loop_body_cases:
  assumes "loop_body lib cfg d s = Inr s'"
  obtains (skip) cur rest where "queue s = cur # rest" "cur |\<in>| visited_urls s"
      "s' = s\<lparr>queue := rest\<rparr>"
  | (visit) cur rest where "queue s = cur # rest" "cur |\<notin>| visited_urls s"
      "scraped_data s' = scraped_data s @ [scrape_page lib (length (scraped_data s)) cur]"
      "visited_urls s' = finsert cur (visited_urls s)"
      "queue s' = rest @ filter (\<lambda>l. l |\<notin>| finsert cur (visited_urls s)
           \<and> (include_external cfg \<or> get_domain lib l = Inr d))
           (links (scrape_page lib (length (scraped_data s)) cur))"
proof (cases "queue s")
  case Nil
  with assms show ?thesis by (simp add: loop_body_def)
next
  case (Cons cur rest)
  show ?thesis
  proof (cases "cur |\<in>| visited_urls s")
    case True
    with assms Cons have "s' = s\<lparr>queue := rest\<rparr>" by (simp add: loop_body_def)
    with Cons True show ?thesis by (rule skip)
  next
    case False
    with assms Cons obtain q' where
      e: "enqueue_links lib cfg d (finsert cur (visited_urls s)) rest
            (links (scrape_page lib (length (scraped_data s)) cur)) = Inr q'"
      and s': "s' = \<lparr>scraped_data = scraped_data s @ [scrape_page lib (length (scraped_data s)) cur],
                    visited_urls = finsert cur (visited_urls s), queue = q'\<rparr>"
      by (auto simp: loop_body_def Let_def split: sum.splits)
    from enqueue_links_eq [OF e] s' Cons False show ?thesis
      by (intro visit [of cur rest]) simp_all
  qed
qed

subsection \<open>Iteration boundaries and invariants\<close>

lemma boundary_Suc_last:
  "boundary lib cfg d (Suc n) s0 =
     (case boundary lib cfg d n s0 of
        None \<Rightarrow> None
      | Some s \<Rightarrow>
          (if loop_cond cfg s then
             (case loop_body lib cfg d s of Inl e \<Rightarrow> None | Inr s' \<Rightarrow> Some s')
           else None))"
proof (induction n arbitrary: s0)
  case 0
  show ?case by (simp split: sum.splits)
next
  case (Suc n)
  show ?case
  proof (cases "loop_cond cfg s0")
    case False
    then show ?thesis by simp
  next
    case True
    show ?thesis
    proof (cases "loop_body lib cfg d s0")
      case (Inl e)
      with True show ?thesis by simp
    next
      case (Inr s1)
      have "boundary lib cfg d (Suc (Suc n)) s0 = boundary lib cfg d (Suc n) s1"
        using True Inr by simp
      also note Suc.IH [of s1]
      also have "boundary lib cfg d n s1 = boundary lib cfg d (Suc n) s0"
        using True Inr by simp
      finally show ?thesis .
    qed
  qed
qed

lemma boundary_invariant:
  assumes "boundary lib cfg d n s0 = Some s"
    and "P s0"
    and step: "\<And>s s'. P s \<Longrightarrow> loop_cond cfg s \<Longrightarrow> loop_body lib cfg d s = Inr s' \<Longrightarrow> P s'"
  shows "P s"
  using assms(1,2)
proof (induction n arbitrary: s0)
  case 0
  then show ?case by simp
next
  case (Suc n)
  from Suc.prems(1) have c: "loop_cond cfg s0"
    by (simp split: if_splits)
  with Suc.prems(1) obtain s1 where b: "loop_body lib cfg d s0 = Inr s1"
    and r: "boundary lib cfg d n s1 = Some s"
    by (cases "loop_body lib cfg d s0") simp_all
  from step [OF Suc.prems(2) c b] have "P s1" .
  with r show ?case by (rule Suc.IH)
qed

lemma process_queue_boundary:
  "process_queue lib cfg d s0 = Inr s' \<Longrightarrow>
   \<exists>n. boundary lib cfg d n s0 = Some s' \<and> \<not> loop_cond cfg s'"
proof (induction lib cfg d s0 rule: process_queue.induct)
  case (1 lib cfg d s)
  show ?case
  proof (cases "loop_cond cfg s")
    case False
    with "1.prems" have "s' = s"
      by (subst (asm) process_queue.simps) simp
    with False have "boundary lib cfg d 0 s = Some s' \<and> \<not> loop_cond cfg s'"
      by simp
    then show ?thesis ..
  next
    case True
    with "1.prems" obtain s1 where b: "loop_body lib cfg d s = Inr s1"
      and r: "process_queue lib cfg d s1 = Inr s'"
      by (subst (asm) process_queue.simps) (cases "loop_body lib cfg d s", simp_all)
    from "1.IH" [OF True b r] obtain n where
      "boundary lib cfg d n s1 = Some s'" and e: "\<not> loop_cond cfg s'"
      by blast
    with True b have "boundary lib cfg d (Suc n) s = Some s'"
      by simp
    with e show ?thesis by blast
  qed
qed

lemma loop_body_count:
  assumes "loop_body lib cfg d s = Inr s'"
    and "length (scraped_data s) = fcard (visited_urls s)"
  shows "length (scraped_data s') = fcard (visited_urls s')"
  using assms(1)
proof (cases rule: loop_body_cases)
  case (skip cur rest)
  with assms(2) show ?thesis by simp
next
  case (visit cur rest)
  with assms(2) show ?thesis by (simp add: fcard_finsert_disjoint)
qed

lemma loop_body_budget:
  assumes "loop_body lib cfg d s = Inr s'" and "loop_cond cfg s"
  shows "fcard (visited_urls s') \<le> max_pages cfg"
  using assms(1)
proof (cases rule: loop_body_cases)
  case (skip cur rest)
  with assms(2) show ?thesis by (simp add: loop_cond_def)
next
  case (visit cur rest)
  with assms(2) show ?thesis by (simp add: loop_cond_def fcard_finsert_disjoint)
qed

lemma loop_body_urls:
  assumes "loop_body lib cfg d s = Inr s'"
    and "distinct (map url (scraped_data s))"
    and "set (map url (scraped_data s)) = fset (visited_urls s)"
  shows "distinct (map url (scraped_data s')) \<and>
         set (map url (scraped_data s')) = fset (visited_urls s')"
  using assms(1)
proof (cases rule: loop_body_cases)
  case (skip cur rest)
  with assms(2,3) show ?thesis by simp
next
  case (visit cur rest)
  from visit(2) assms(3) have "cur \<notin> set (map url (scraped_data s))"
    by simp
  with visit(3,4) assms(2,3) show ?thesis
    by (simp add: scrape_page_url)
qed

lemma loop_body_scope:
  assumes "loop_body lib cfg d s = Inr s'"
    and "\<not> include_external cfg"
    and "\<forall>l\<in>set (queue s). get_domain lib l = Inr d"
  shows "\<forall>l\<in>set (queue s'). get_domain lib l = Inr d"
  using assms(1)
proof (cases rule: loop_body_cases)
  case (skip cur rest)
  with assms(3) show ?thesis by simp
next
  case (visit cur rest)
  with assms(2,3) show ?thesis by auto
qed

lemma loop_body_records:
  assumes "loop_body lib cfg d s = Inr s'"
    and "\<forall>k<length (scraped_data s). scraped_data s ! k = scrape_page lib k (url (scraped_data s ! k))"
  shows "\<forall>k<length (scraped_data s'). scraped_data s' ! k = scrape_page lib k (url (scraped_data s' ! k))"
  using assms(1)
proof (cases rule: loop_body_cases)
  case (skip cur rest)
  with assms(2) show ?thesis by simp
next
  case (visit cur rest)
  with assms(2) show ?thesis
    by (auto simp: nth_append scrape_page_url less_Suc_eq)
qed

lemma loop_body_prefix:
  assumes "loop_body lib cfg d s = Inr s'"
  shows "\<exists>ps. scraped_data s' = scraped_data s @ ps"
  using assms
  by (cases rule: loop_body_cases) simp_all

lemma process_queue_prefix:
  "process_queue lib cfg d s = Inr s' \<Longrightarrow> \<exists>ps. scraped_data s' = scraped_data s @ ps"
proof -
  assume "process_queue lib cfg d s = Inr s'"
  then obtain n where "boundary lib cfg d n s = Some s'"
    using process_queue_boundary by blast
  then show ?thesis
  proof (rule boundary_invariant)
    show "\<exists>ps. scraped_data s = scraped_data s @ ps" by simp
  next
    fix t t'
    assume "\<exists>ps. scraped_data t = scraped_data s @ ps" and "loop_body lib cfg d t = Inr t'"
    then show "\<exists>ps. scraped_data t' = scraped_data s @ ps"
      using loop_body_prefix by fastforce
  qed
qed

lemma enqueue_links_external:
  "include_external cfg \<Longrightarrow>
   enqueue_links lib cfg d vis q ls = Inr (q @ filter (\<lambda>l. l |\<notin>| vis) ls)"
  by (induction ls arbitrary: q) simp_all

lemma loop_body_grows:
  assumes "loop_body lib cfg d s = Inr s'"
  shows "(\<exists>ps. scraped_data s' = scraped_data s @ ps) \<and> visited_urls s |\<subseteq>| visited_urls s'"
  using assms
  by (cases rule: loop_body_cases) auto

lemma process_queue_grows:
  assumes "process_queue lib cfg d s = Inr s'"
  shows "(\<exists>ps. scraped_data s' = scraped_data s @ ps) \<and> visited_urls s |\<subseteq>| visited_urls s'"
proof -
  from assms obtain n where "boundary lib cfg d n s = Some s'"
    using process_queue_boundary by blast
  then show ?thesis
  proof (rule boundary_invariant)
    show "(\<exists>ps. scraped_data s = scraped_data s @ ps) \<and> visited_urls s |\<subseteq>| visited_urls s"
      by simp
  next
    fix t t'
    assume t: "(\<exists>ps. scraped_data t = scraped_data s @ ps) \<and> visited_urls s |\<subseteq>| visited_urls t"
      and "loop_body lib cfg d t = Inr t'"
    from loop_body_grows [OF this(2)] obtain qs where
      "scraped_data t' = scraped_data t @ qs" and "visited_urls t |\<subseteq>| visited_urls t'"
      by blast
    with t show "(\<exists>ps. scraped_data t' = scraped_data s @ ps) \<and> visited_urls s |\<subseteq>| visited_urls t'"
      by auto
  qed
qed

lemma boundary_fresh_count:
  assumes "boundary lib cfg d n (fresh cfg) = Some s"
  shows "length (scraped_data s) = fcard (visited_urls s) \<and> fcard (visited_urls s) \<le> max_pages cfg"
  using assms
proof (rule boundary_invariant)
  show "length (scraped_data (fresh cfg)) = fcard (visited_urls (fresh cfg))
        \<and> fcard (visited_urls (fresh cfg)) \<le> max_pages cfg"
    by (simp add: fresh_def fcard_fempty)
next
  fix t t'
  assume "length (scraped_data t) = fcard (visited_urls t) \<and> fcard (visited_urls t) \<le> max_pages cfg"
    and "loop_cond cfg t" and "loop_body lib cfg d t = Inr t'"
  then show "length (scraped_data t') = fcard (visited_urls t') \<and> fcard (visited_urls t') \<le> max_pages cfg"
    using loop_body_count loop_body_budget by blast
qed

lemma boundary_fresh_urls:
  assumes "boundary lib cfg d n (fresh cfg) = Some s"
  shows "distinct (map url (scraped_data s)) \<and> set (map url (scraped_data s)) = fset (visited_urls s)"
  using assms
proof (rule boundary_invariant)
  show "distinct (map url (scraped_data (fresh cfg)))
        \<and> set (map url (scraped_data (fresh cfg))) = fset (visited_urls (fresh cfg))"
    by (simp add: fresh_def)
next
  fix t t'
  assume "distinct (map url (scraped_data t)) \<and> set (map url (scraped_data t)) = fset (visited_urls t)"
    and "loop_body lib cfg d t = Inr t'"
  then show "distinct (map url (scraped_data t')) \<and> set (map url (scraped_data t')) = fset (visited_urls t')"
    using loop_body_urls by blast
qed

lemma boundary_fresh_records:
  assumes "boundary lib cfg d n (fresh cfg) = Some s"
  shows "\<forall>k<length (scraped_data s). scraped_data s ! k = scrape_page lib k (url (scraped_data s ! k))"
  using assms
proof (rule boundary_invariant)
  show "\<forall>k<length (scraped_data (fresh cfg)).
          scraped_data (fresh cfg) ! k = scrape_page lib k (url (scraped_data (fresh cfg) ! k))"
    by (simp add: fresh_def)
next
  fix t t'
  assume "\<forall>k<length (scraped_data t). scraped_data t ! k = scrape_page lib k (url (scraped_data t ! k))"
    and "loop_body lib cfg d t = Inr t'"
  then show "\<forall>k<length (scraped_data t'). scraped_data t' ! k = scrape_page lib k (url (scraped_data t' ! k))"
    using loop_body_records by blast
qed

lemma boundary_fresh_scope:
  assumes "boundary lib cfg d n (fresh cfg) = Some s"
    and "get_domain lib (base_url cfg) = Inr d" and "\<not> include_external cfg"
  shows "\<forall>l\<in>set (queue s). get_domain lib l = Inr d"
  using assms(1)
proof (rule boundary_invariant)
  show "\<forall>l\<in>set (queue (fresh cfg)). get_domain lib l = Inr d"
    using assms(2) by (simp add: fresh_def)
next
  fix t t'
  assume "\<forall>l\<in>set (queue t). get_domain lib l = Inr d" and "loop_body lib cfg d t = Inr t'"
  then show "\<forall>l\<in>set (queue t'). get_domain lib l = Inr d"
    using loop_body_scope assms(3) by blast
qed

lemma process_queue_stop: "\<not> loop_cond cfg s \<Longrightarrow> process_queue lib cfg d s = Inr s"
  by (subst process_queue.simps) simp

lemma process_queue_step:
  "loop_cond cfg s \<Longrightarrow> loop_body lib cfg d s = Inr s1 \<Longrightarrow>
   process_queue lib cfg d s = process_queue lib cfg d s1"
  by (subst process_queue.simps) simp

subsection \<open>Whitespace\<close>

lemma ws_collapsed_append:
  "ws_collapsed (xs @ ys) \<longleftrightarrow>
     ws_collapsed xs \<and> ws_collapsed ys
     \<and> (xs \<noteq> [] \<and> ys \<noteq> [] \<longrightarrow> \<not> (is_space (last xs) \<and> is_space (hd ys)))"
proof (induction xs rule: ws_collapsed.induct)
  case 1
  show ?case by simp
next
  case (2 c)
  show ?case by (cases ys) auto
next
  case (3 c d cs)
  then show ?case by auto
qed

lemma ws_collapsed_dropWhile: "ws_collapsed xs \<Longrightarrow> ws_collapsed (dropWhile P xs)"
proof -
  assume "ws_collapsed xs"
  then have "ws_collapsed (takeWhile P xs @ dropWhile P xs)" by simp
  then show ?thesis unfolding ws_collapsed_append by simp
qed

lemma ws_collapsed_take: "ws_collapsed xs \<Longrightarrow> ws_collapsed (take n xs)"
proof -
  assume "ws_collapsed xs"
  then have "ws_collapsed (take n xs @ drop n xs)" by simp
  then show ?thesis unfolding ws_collapsed_append by simp
qed

lemma rev_dropWhile_rev_prefix:
  "rev (dropWhile P (rev xs)) @ rev (takeWhile P (rev xs)) = xs"
proof -
  have "rev (takeWhile P (rev xs) @ dropWhile P (rev xs)) = xs" by simp
  then show ?thesis by (simp only: rev_append)
qed

lemma ws_collapsed_strip: "ws_collapsed s \<Longrightarrow> ws_collapsed (strip s)"
proof -
  assume "ws_collapsed s"
  then have "ws_collapsed (dropWhile is_space s)" by (rule ws_collapsed_dropWhile)
  then have "ws_collapsed (rev (dropWhile is_space (rev (dropWhile is_space s)))
                @ rev (takeWhile is_space (rev (dropWhile is_space s))))"
    by (simp only: rev_dropWhile_rev_prefix)
  then show ?thesis unfolding ws_collapsed_append strip_def by simp
qed

lemma last_dropWhile: "dropWhile P xs \<noteq> [] \<Longrightarrow> last (dropWhile P xs) = last xs"
proof -
  assume n: "dropWhile P xs \<noteq> []"
  have "last xs = last (takeWhile P xs @ dropWhile P xs)" by simp
  also from n have "\<dots> = last (dropWhile P xs)" by (rule last_appendR)
  finally show ?thesis by simp
qed

lemma strip_ends:
  assumes "strip s \<noteq> []"
  shows "\<not> is_space (hd (strip s)) \<and> \<not> is_space (last (strip s))"
proof -
  let ?t = "dropWhile is_space s"
  let ?r = "dropWhile is_space (rev ?t)"
  from assms have r: "?r \<noteq> []" by (simp add: strip_def)
  have t: "?t \<noteq> []"
  proof
    assume e: "?t = []"
    have "?r = []" unfolding e by simp
    with r show False by contradiction
  qed
  from r have "\<not> is_space (hd ?r)" by (rule hd_dropWhile)
  moreover from r have "last (strip s) = hd ?r" by (simp add: strip_def last_rev)
  moreover from r have "hd (strip s) = last ?r" by (simp add: strip_def hd_rev)
  moreover from r have "last ?r = last (rev ?t)" by (rule last_dropWhile)
  moreover from t have "last (rev ?t) = hd ?t" by (simp add: last_rev)
  moreover from t have "\<not> is_space (hd ?t)" by (rule hd_dropWhile)
  ultimately show ?thesis by simp
qed

lemma join_space_collapsed:
  assumes "\<forall>x\<in>set xs. x \<noteq> [] \<and> ws_collapsed x \<and> \<not> is_space (hd x) \<and> \<not> is_space (last x)"
  shows "ws_collapsed (join '' '' xs) \<and> (xs \<noteq> [] \<longrightarrow> hd (join '' '' xs) = hd (hd xs))"
  using assms
proof (induction "'' ''" xs rule: join.induct)
  case 1
  show ?case by simp
next
  case (2 x)
  then show ?case by simp
next
  case (3 x y ys)
  then have ih: "ws_collapsed (join '' '' (y # ys))" and h: "hd (join '' '' (y # ys)) = hd y"
    by simp_all
  from "3.prems" have x: "x \<noteq> []" "ws_collapsed x" "\<not> is_space (last x)"
    and y: "y \<noteq> []" "\<not> is_space (hd y)"
    by simp_all
  have sp: "is_space CHR '' ''" by (simp add: is_space_def)
  define rest where "rest = '' '' @ join '' '' (y # ys)"
  have r: "ws_collapsed rest"
    unfolding rest_def using ih h y by (cases "join '' '' (y # ys)") (simp_all add: sp)
  have "ws_collapsed (x @ rest)"
    unfolding ws_collapsed_append using x r by simp
  moreover have "join '' '' (x # y # ys) = x @ rest"
    by (simp add: rest_def)
  moreover have "hd (x @ rest) = hd x"
    using x by simp
  ultimately show ?case by simp
qed

lemma get_text_collapsed:
  assumes "\<forall>t\<in>set (text_nodes doc). ws_collapsed t"
  shows "ws_collapsed (get_text '' '' doc)"
proof -
  have "\<forall>x\<in>set (all_strings doc).
          x \<noteq> [] \<and> ws_collapsed x \<and> \<not> is_space (hd x) \<and> \<not> is_space (last x)"
    using assms by (auto simp: all_strings_def ws_collapsed_strip strip_ends)
  from join_space_collapsed [OF this] show ?thesis
    by (simp add: get_text_def)
qed

subsection \<open>The example library on the example site\<close>

lemmas ex_url_defs = ex_urlparse_def is_alpha_def is_scheme_char_def lower_def Let_def

lemmas doc_defs = find_tag_def get_text_def all_strings_def text_nodes_def strip_def
  is_space_def find_all_hrefs_def

lemma ex_lib_sel:
  "urlparse ex_lib = ex_urlparse" "urljoin ex_lib = ex_urljoin" "fetch ex_lib = ex_fetch"
  by (simp_all add: ex_lib_def)

lemma page_lib_sel:
  "urlparse (page_lib doc) = ex_urlparse" "urljoin (page_lib doc) = ex_urljoin"
  "fetch (page_lib doc) k u = Inr \<lparr>status_code = 200, soup = doc\<rparr>"
  by (simp_all add: page_lib_def)

lemma ex_parse_home:
  "ex_urlparse ''https://example.com'' = Inr \<lparr>scheme = ''https'', netloc = ''example.com''\<rparr>"
  by (simp add: ex_url_defs)

lemma ex_parse_about:
  "ex_urlparse ''https://example.com/about'' =
     Inr \<lparr>scheme = ''https'', netloc = ''example.com''\<rparr>"
  by (simp add: ex_url_defs)

lemma ex_parse_about_slash:
  "ex_urlparse ''https://example.com/about/'' =
     Inr \<lparr>scheme = ''https'', netloc = ''example.com''\<rparr>"
  by (simp add: ex_url_defs)

lemma ex_parse_contact:
  "ex_urlparse ''https://example.com/contact'' =
     Inr \<lparr>scheme = ''https'', netloc = ''example.com''\<rparr>"
  by (simp add: ex_url_defs)

lemma ex_parse_other:
  "ex_urlparse ''https://other.org/'' = Inr \<lparr>scheme = ''https'', netloc = ''other.org''\<rparr>"
  by (simp add: ex_url_defs)

lemma ex_parse_mailto:
  "ex_urlparse ''mailto:test@example.com'' = Inr \<lparr>scheme = ''mailto'', netloc = []\<rparr>"
  by (simp add: ex_url_defs)

lemma ex_parse_javascript:
  "ex_urlparse ''javascript:void(0)'' = Inr \<lparr>scheme = ''javascript'', netloc = []\<rparr>"
  by (simp add: ex_url_defs)

lemma ex_parse_path: "ex_urlparse ''/about'' = Inr \<lparr>scheme = [], netloc = []\<rparr>"
  by (simp add: ex_url_defs)

lemma ex_parse_bare: "ex_urlparse ''example.com'' = Inr \<lparr>scheme = [], netloc = []\<rparr>"
  by (simp add: ex_url_defs)

lemmas ex_parse = ex_parse_home ex_parse_about ex_parse_about_slash ex_parse_contact
  ex_parse_other ex_parse_mailto ex_parse_javascript ex_parse_path ex_parse_bare

lemma ex_join_path:
  "ex_urljoin ''https://example.com'' ''/about'' = Inr ''https://example.com/about''"
  by (simp add: ex_urljoin_def ex_parse uses_relative_def)

lemma ex_join_about_slash:
  "ex_urljoin ''https://example.com'' ''https://example.com/about/'' =
     Inr ''https://example.com/about/''"
  by (simp add: ex_urljoin_def ex_parse uses_relative_def)

lemma ex_join_about:
  "ex_urljoin ''https://example.com'' ''https://example.com/about'' =
     Inr ''https://example.com/about''"
  by (simp add: ex_urljoin_def ex_parse uses_relative_def)

lemma ex_join_other:
  "ex_urljoin ''https://example.com'' ''https://other.org/'' = Inr ''https://other.org/''"
  by (simp add: ex_urljoin_def ex_parse uses_relative_def)

lemma ex_join_mailto:
  "ex_urljoin ''https://example.com'' ''mailto:test@example.com'' =
     Inr ''mailto:test@example.com''"
  by (simp add: ex_urljoin_def ex_parse uses_relative_def)

lemma ex_join_contact_mailto:
  "ex_urljoin ''https://example.com/contact'' ''mailto:test@example.com'' =
     Inr ''mailto:test@example.com''"
  by (simp add: ex_urljoin_def ex_parse uses_relative_def)

lemma ex_join_contact_javascript:
  "ex_urljoin ''https://example.com/contact'' ''javascript:void(0)'' =
     Inr ''javascript:void(0)''"
  by (simp add: ex_urljoin_def ex_parse uses_relative_def)

lemmas ex_join = ex_join_path ex_join_about_slash ex_join_about ex_join_other
  ex_join_mailto ex_join_contact_mailto ex_join_contact_javascript

lemma ex_scrape_body_home: "scrape_body ex_lib k ''https://example.com'' = Inr ex_home_page"
  by (simp add: scrape_body_def ex_lib_sel ex_fetch_def ex_home_def ex_home_page_def
      doc_defs is_valid_url_def ex_parse ex_join)

lemma ex_scrape_body_about:
  "scrape_body ex_lib k ''https://example.com/about'' = Inr ex_about_page"
  by (simp add: scrape_body_def ex_lib_sel ex_fetch_def ex_about_def ex_about_page_def doc_defs)

lemma ex_fetch_missing:
  "fetch ex_lib k ''https://example.com/about/'' = Inl ''404 Client Error: Not Found for url''"
  by (simp add: ex_lib_sel ex_fetch_def)

lemma ex_scrape_home: "scrape_page ex_lib k ''https://example.com'' = ex_home_page"
  by (simp add: scrape_page_def ex_scrape_body_home)

lemma ex_scrape_about: "scrape_page ex_lib k ''https://example.com/about'' = ex_about_page"
  by (simp add: scrape_page_def ex_scrape_body_about)

lemma ex_scrape_missing: "scrape_page ex_lib k ''https://example.com/about/'' = ex_missing_page"
  by (simp add: scrape_page_def scrape_body_def ex_fetch_missing ex_missing_page_def)

lemma ex_valid_home: "is_valid_url ex_lib ''https://example.com''"
  by (simp add: is_valid_url_def ex_lib_sel ex_parse)

lemma ex_valid_missing: "is_valid_url ex_lib ''https://example.com/about/''"
  by (simp add: is_valid_url_def ex_lib_sel ex_parse)

lemma ex_invalid_bare: "\<not> is_valid_url ex_lib ''example.com''"
  by (simp add: is_valid_url_def ex_lib_sel ex_parse)

lemma ex_domain:
  "get_domain ex_lib ''https://example.com'' = Inr ''example.com''"
  "get_domain ex_lib ''https://example.com/about'' = Inr ''example.com''"
  "get_domain ex_lib ''https://example.com/about/'' = Inr ''example.com''"
  "get_domain ex_lib ''https://other.org/'' = Inr ''other.org''"
  by (simp_all add: get_domain_def ex_lib_sel ex_parse)

text \<open>The four iterations of the crawl from the home page, external links excluded.\<close>

lemma ex_iteration_1:
  "loop_body ex_lib (ex_cfg ''https://example.com'' n False) ''example.com''
     (fresh (ex_cfg ''https://example.com'' n False)) = Inr ex_s1"
  by (simp add: loop_body_def fresh_def ex_cfg_def ex_scrape_home ex_home_page_def
      ex_domain ex_s1_def)

lemma ex_iteration_2:
  "loop_body ex_lib (ex_cfg ''https://example.com'' n False) ''example.com'' ex_s1 = Inr ex_s2"
  by (simp add: loop_body_def ex_s1_def ex_scrape_missing ex_missing_page_def ex_s2_def)

lemma ex_iteration_3:
  "loop_body ex_lib (ex_cfg ''https://example.com'' n False) ''example.com'' ex_s2 = Inr ex_s3"
  by (simp add: loop_body_def ex_s2_def ex_scrape_about ex_about_page_def ex_s3_def)

lemma ex_iteration_4:
  "loop_body ex_lib (ex_cfg ''https://example.com'' n False) ''example.com'' ex_s3 = Inr ex_s4"
  by (simp add: loop_body_def ex_s3_def ex_s4_def)

lemma ex_counts:
  "fcard (visited_urls (fresh cfg)) = 0" "fcard (visited_urls ex_s1) = 1"
  "fcard (visited_urls ex_s2) = 2" "fcard (visited_urls ex_s3) = 3"
  "fcard (visited_urls ex_s4) = 3"
  by (simp_all add: fresh_def ex_s1_def ex_s2_def ex_s3_def ex_s4_def fcard_fempty
      fcard_finsert_if)

lemma ex_boundary_1:
  "0 < n \<Longrightarrow>
   boundary ex_lib (ex_cfg ''https://example.com'' n False) ''example.com'' (Suc 0)
     (fresh (ex_cfg ''https://example.com'' n False)) = Some ex_s1"
  by (simp add: ex_iteration_1 loop_cond_def ex_counts) (simp add: fresh_def ex_cfg_def)

lemma ex_boundary_4:
  "boundary ex_lib (ex_cfg ''https://example.com'' 4 False) ''example.com''
     (Suc (Suc (Suc (Suc 0)))) (fresh (ex_cfg ''https://example.com'' 4 False)) = Some ex_s4"
proof -
  let ?cfg = "ex_cfg ''https://example.com'' 4 False"
  have c: "loop_cond ?cfg (fresh ?cfg)" "loop_cond ?cfg ex_s1" "loop_cond ?cfg ex_s2"
    "loop_cond ?cfg ex_s3"
    by (simp_all add: loop_cond_def ex_counts)
      (simp_all add: fresh_def ex_cfg_def ex_s1_def ex_s2_def ex_s3_def)
  show ?thesis
    by (simp add: c ex_iteration_1 ex_iteration_2 ex_iteration_3 ex_iteration_4)
qed

lemma ex_run:
  "process_queue ex_lib (ex_cfg ''https://example.com'' 4 False) ''example.com''
     (fresh (ex_cfg ''https://example.com'' 4 False)) = Inr ex_s4"
proof -
  let ?cfg = "ex_cfg ''https://example.com'' 4 False"
  have c: "loop_cond ?cfg (fresh ?cfg)" "loop_cond ?cfg ex_s1" "loop_cond ?cfg ex_s2"
    "loop_cond ?cfg ex_s3"
    by (simp_all add: loop_cond_def ex_counts)
      (simp_all add: fresh_def ex_cfg_def ex_s1_def ex_s2_def ex_s3_def)
  have "\<not> loop_cond ?cfg ex_s4"
    by (simp add: loop_cond_def ex_s4_def)
  then have "process_queue ex_lib ?cfg ''example.com'' ex_s4 = Inr ex_s4"
    by (rule process_queue_stop)
  with process_queue_step [OF c(1) ex_iteration_1] process_queue_step [OF c(2) ex_iteration_2]
    process_queue_step [OF c(3) ex_iteration_3] process_queue_step [OF c(4) ex_iteration_4]
  show ?thesis by simp
qed

lemma ex_start: "start ex_lib (ex_cfg ''https://example.com'' 4 False) s = Completed ex_s4"
proof -
  have "base_url (ex_cfg ''https://example.com'' 4 False) = ''https://example.com''"
    by (simp add: ex_cfg_def)
  then show ?thesis
    by (simp add: start_def ex_valid_home ex_domain ex_run)
qed

section \<open>The claims\<close>

subsection \<open>Auxiliary facts\<close>

lemma scrape_page_failure:
  "scrape_body lib k u = Inl e \<Longrightarrow>
   scrape_page lib k u =
     \<lparr>url = u, title = Some ''Error'', content = ''Error scraping page: '' @ e,
      links = [], status = 0\<rparr>"
  by (simp add: scrape_page_def)

lemma fetch_failure: "fetch lib k u = Inl e \<Longrightarrow> scrape_body lib k u = Inl e"
  by (simp add: scrape_body_def)

lemma start_valid:
  assumes "base_url cfg \<noteq> []" and "is_valid_url lib (base_url cfg)"
  obtains d s' where "get_domain lib (base_url cfg) = Inr d"
    and "process_queue lib cfg d (fresh cfg) = Inr s'"
    and "start lib cfg s = Completed s'"
proof -
  from valid_get_domain [OF assms(2)] obtain d where d: "get_domain lib (base_url cfg) = Inr d" ..
  obtain s' where r: "process_queue lib cfg d (fresh cfg) = Inr s'"
    using process_queue_total by blast
  from assms d r have "start lib cfg s = Completed s'"
    by (simp add: start_def)
  with d r show ?thesis by (rule that)
qed

lemma failing_seed_run:
  assumes "fetch lib 0 (base_url cfg) = Inl e" and "0 < max_pages cfg"
  shows "process_queue lib cfg d (fresh cfg) =
     Inr \<lparr>scraped_data =
            [\<lparr>url = base_url cfg, title = Some ''Error'',
              content = ''Error scraping page: '' @ e, links = [], status = 0\<rparr>],
          visited_urls = {|base_url cfg|}, queue = []\<rparr>"
proof -
  let ?s1 = "\<lparr>scraped_data =
            [\<lparr>url = base_url cfg, title = Some ''Error'',
              content = ''Error scraping page: '' @ e, links = [], status = 0\<rparr>],
          visited_urls = {|base_url cfg|}, queue = []\<rparr>"
  from assms(1) have p: "scrape_page lib 0 (base_url cfg) =
      \<lparr>url = base_url cfg, title = Some ''Error'',
       content = ''Error scraping page: '' @ e, links = [], status = 0\<rparr>"
    by (simp add: scrape_page_failure fetch_failure)
  have c: "loop_cond cfg (fresh cfg)"
    using assms(2) by (simp add: loop_cond_def fresh_def fcard_fempty)
  have b: "loop_body lib cfg d (fresh cfg) = Inr ?s1"
    by (simp add: loop_body_def fresh_def p)
  have "\<not> loop_cond cfg ?s1"
    by (simp add: loop_cond_def)
  then have "process_queue lib cfg d ?s1 = Inr ?s1"
    by (rule process_queue_stop)
  with process_queue_step [OF c b] show ?thesis by simp
qed

lemma page_scrape_contact:
  "scrape_body (page_lib ex_contact) 0 ''https://example.com/contact'' =
     Inr \<lparr>url = ''https://example.com/contact'', title = Some ''No Title'',
          content = ''Mail Menu'', links = [], status = 200\<rparr>"
  by (simp add: scrape_body_def page_lib_sel ex_contact_def doc_defs is_valid_url_def
      ex_parse ex_join)

lemma collect_links_Inr:
  "\<forall>h\<in>set hs. \<exists>f. urljoin lib u h = Inr f \<Longrightarrow>
   collect_links lib u acc hs =
     Inr (acc @ filter (is_valid_url lib) (map (\<lambda>h. projr (urljoin lib u h)) hs))"
proof (induction hs arbitrary: acc)
  case Nil
  show ?case by simp
next
  case (Cons h hs)
  from Cons.prems obtain f where f: "urljoin lib u h = Inr f" by auto
  from Cons.prems have "\<forall>h\<in>set hs. \<exists>f. urljoin lib u h = Inr f" by simp
  from Cons.IH [OF this] f show ?case by simp
qed

lemma scrape_page_links:
  assumes "fetch lib k u = Inr resp"
    and "hrefs = find_all_hrefs (concat (map (decompose_all [''script'', ''style'']) (soup resp)))"
    and "\<forall>h\<in>set hrefs. \<exists>f. urljoin lib u h = Inr f"
  shows "links (scrape_page lib k u) =
     filter (is_valid_url lib) (map (\<lambda>h. projr (urljoin lib u h)) hrefs)"
proof -
  from collect_links_Inr [OF assms(3), of "[]"] assms(1,2) show ?thesis
    by (simp add: scrape_page_def scrape_body_def Let_def)
qed

lemma loop_body_failed_page:
  assumes "queue s = cur # rest" and "cur |\<notin>| visited_urls s"
    and "scrape_body lib (length (scraped_data s)) cur = Inl e"
  shows "loop_body lib cfg d s =
     Inr \<lparr>scraped_data = scraped_data s
              @ [\<lparr>url = cur, title = Some ''Error'', content = ''Error scraping page: '' @ e,
                  links = [], status = 0\<rparr>],
          visited_urls = finsert cur (visited_urls s), queue = rest\<rparr>"
  using assms by (simp add: loop_body_def scrape_page_failure)

lemma two_heads_run:
  assumes "u \<noteq> v"
    and "queue s = u # v # rest"
    and "u |\<notin>| visited_urls s" and "v |\<notin>| visited_urls s"
    and "fcard (visited_urls s) + 2 \<le> max_pages cfg"
  shows "\<exists>s' ps. process_queue lib cfg d s = Inr s'
      \<and> scraped_data s' =
          scraped_data s
          @ [scrape_page lib (length (scraped_data s)) u,
             scrape_page lib (Suc (length (scraped_data s))) v] @ ps
      \<and> url (scrape_page lib (length (scraped_data s)) u) = u
      \<and> url (scrape_page lib (Suc (length (scraped_data s))) v) = v
      \<and> u |\<in>| visited_urls s' \<and> v |\<in>| visited_urls s'"
proof -
  have c0: "loop_cond cfg s"
    using assms(2,5) by (simp add: loop_cond_def)
  from assms(2) have "queue s \<noteq> []" by simp
  from loop_body_total [OF this] obtain s1 where b0: "loop_body lib cfg d s = Inr s1" ..
  from b0 assms(2,3) obtain q1 where
    sd1: "scraped_data s1 = scraped_data s @ [scrape_page lib (length (scraped_data s)) u]"
    and v1: "visited_urls s1 = finsert u (visited_urls s)"
    and q1: "queue s1 = v # q1"
    by (cases rule: loop_body_cases) auto
  from v1 assms(3,5) have c1: "loop_cond cfg s1"
    by (simp add: loop_cond_def q1 fcard_finsert_disjoint)
  from q1 have "queue s1 \<noteq> []" by simp
  from loop_body_total [OF this] obtain s2 where b1: "loop_body lib cfg d s1 = Inr s2" ..
  from assms(1,4) v1 have "v |\<notin>| visited_urls s1" by simp
  with b1 q1 have
    sd2: "scraped_data s2 = scraped_data s1 @ [scrape_page lib (length (scraped_data s1)) v]"
    and v2: "visited_urls s2 = finsert v (visited_urls s1)"
    by (cases rule: loop_body_cases; simp)+
  obtain s' where r: "process_queue lib cfg d s2 = Inr s'"
    using process_queue_total by blast
  from process_queue_grows [OF r] obtain ps where
    sd': "scraped_data s' = scraped_data s2 @ ps" and sub: "visited_urls s2 |\<subseteq>| visited_urls s'"
    by blast
  have "process_queue lib cfg d s = Inr s'"
    using process_queue_step [OF c0 b0] process_queue_step [OF c1 b1] r by simp
  moreover have "scraped_data s' =
          scraped_data s
          @ [scrape_page lib (length (scraped_data s)) u,
             scrape_page lib (Suc (length (scraped_data s))) v] @ ps"
    using sd' sd2 sd1 by simp
  moreover have "u |\<in>| visited_urls s'" and "v |\<in>| visited_urls s'"
    using sub v2 v1 by auto
  ultimately show ?thesis
    by (simp add: scrape_page_url)
qed

lemma enqueue_links_valid:
  assumes "\<forall>l\<in>set ls. is_valid_url lib l"
  shows "enqueue_links lib cfg d vis q ls =
     Inr (q @ filter (\<lambda>l. l |\<notin>| vis \<and> (include_external cfg \<or> get_domain lib l = Inr d)) ls)"
proof -
  from enqueue_links_total [OF assms] obtain q' where
    e: "enqueue_links lib cfg d vis q ls = Inr q'" ..
  from enqueue_links_eq [OF e] e show ?thesis by simp
qed

lemma first_iteration:
  assumes "0 < max_pages cfg"
  shows "process_queue lib cfg d (fresh cfg) =
     process_queue lib cfg d
       \<lparr>scraped_data = [scrape_page lib 0 (base_url cfg)],
        visited_urls = {|base_url cfg|},
        queue = filter (\<lambda>l. l \<noteq> base_url cfg
                   \<and> (include_external cfg \<or> get_domain lib l = Inr d))
                  (links (scrape_page lib 0 (base_url cfg)))\<rparr>"
proof -
  have c: "loop_cond cfg (fresh cfg)"
    using assms by (simp add: loop_cond_def fresh_def fcard_fempty)
  have "loop_body lib cfg d (fresh cfg) =
     Inr \<lparr>scraped_data = [scrape_page lib 0 (base_url cfg)],
          visited_urls = {|base_url cfg|},
          queue = filter (\<lambda>l. l \<noteq> base_url cfg
                   \<and> (include_external cfg \<or> get_domain lib l = Inr d))
                  (links (scrape_page lib 0 (base_url cfg)))\<rparr>"
    by (simp add: loop_body_def fresh_def Let_def enqueue_links_valid [OF scrape_page_links_valid])
  with c show ?thesis by (rule process_queue_step)
qed

lemma seed_links_run:
  assumes "fetch lib 0 (base_url cfg) = Inr resp"
    and "hrefs = find_all_hrefs (concat (map (decompose_all [''script'', ''style'']) (soup resp)))"
    and "\<forall>h\<in>set hrefs. \<exists>f. urljoin lib (base_url cfg) h = Inr f"
    and "filter (\<lambda>l. is_valid_url lib l \<and> l \<noteq> base_url cfg
                 \<and> (include_external cfg \<or> get_domain lib l = Inr d))
           (map (\<lambda>h. projr (urljoin lib (base_url cfg) h)) hrefs) = u # v # rest"
    and "u \<noteq> v" and "3 \<le> max_pages cfg"
  shows "\<exists>s' ps. process_queue lib cfg d (fresh cfg) = Inr s'
      \<and> scraped_data s' =
          [scrape_page lib 0 (base_url cfg), scrape_page lib 1 u, scrape_page lib 2 v] @ ps
      \<and> url (scrape_page lib 1 u) = u \<and> url (scrape_page lib 2 v) = v
      \<and> u |\<in>| visited_urls s' \<and> v |\<in>| visited_urls s'"
proof -
  let ?seed = "base_url cfg"
  let ?scope = "\<lambda>l. l \<noteq> ?seed \<and> (include_external cfg \<or> get_domain lib l = Inr d)"
  let ?s1 = "\<lparr>scraped_data = [scrape_page lib 0 ?seed], visited_urls = {|?seed|},
              queue = filter ?scope (links (scrape_page lib 0 ?seed))\<rparr>"
  have "filter ?scope (links (scrape_page lib 0 ?seed)) =
      filter (\<lambda>l. is_valid_url lib l \<and> ?scope l)
        (map (\<lambda>h. projr (urljoin lib ?seed h)) hrefs)"
    by (simp add: scrape_page_links [OF assms(1,2,3)] conj_commute)
  with assms(4) have q: "queue ?s1 = u # v # rest" by simp
  from q have "u \<in> set (filter ?scope (links (scrape_page lib 0 ?seed)))"
    and "v \<in> set (filter ?scope (links (scrape_page lib 0 ?seed)))"
    by simp_all
  then have nu: "u |\<notin>| visited_urls ?s1" and nv: "v |\<notin>| visited_urls ?s1"
    by simp_all
  have m: "fcard (visited_urls ?s1) + 2 \<le> max_pages cfg"
    using assms(6) by (simp add: fcard_finsert_if fcard_fempty)
  from assms(6) have "0 < max_pages cfg" by simp
  from two_heads_run [OF assms(5) q nu nv m, of lib d] first_iteration [OF this, of lib d]
  show ?thesis by (simp add: numeral_2_eq_2)
qed

lemma ex_home_hrefs:
  "find_all_hrefs (concat (map (decompose_all [''script'', ''style'']) ex_home)) =
     [''https://example.com/about/'', ''/about'', ''https://example.com/about'',
      ''https://other.org/'', ''mailto:test@example.com'']"
  by (simp add: ex_home_def find_all_hrefs_def)

subsection \<open>The theorems\<close>

text \<open>
  Claim C1. In every run of the crawl loop, started by the start handler in the
  fresh state, at every iteration boundary the number of records in
  \<open>scraped_data\<close> equals the size of \<open>visited_urls\<close>, which never exceeds
  \<open>max_pages\<close>; a boundary at which the visited count has reached
  \<open>max_pages\<close> is the last one, the loop returns there. The loop always
  returns, and in its final state the same holds and either the queue is empty
  or the budget is used up.
\<close>

theorem results_match_visited_within_budget:
  "(\<forall>n s. boundary lib cfg d n (fresh cfg) = Some s \<longrightarrow>
      length (scraped_data s) = fcard (visited_urls s)
      \<and> fcard (visited_urls s) \<le> max_pages cfg
      \<and> (fcard (visited_urls s) = max_pages cfg \<longrightarrow>
           boundary lib cfg d (Suc n) (fresh cfg) = None
           \<and> process_queue lib cfg d s = Inr s))
   \<and> (\<exists>s'. process_queue lib cfg d (fresh cfg) = Inr s'
         \<and> length (scraped_data s') = fcard (visited_urls s')
         \<and> fcard (visited_urls s') \<le> max_pages cfg
         \<and> (queue s' = [] \<or> fcard (visited_urls s') = max_pages cfg))"
proof (intro conjI allI impI)
  fix n s
  assume b: "boundary lib cfg d n (fresh cfg) = Some s"
  from boundary_fresh_count [OF b]
  show "length (scraped_data s) = fcard (visited_urls s)"
    and "fcard (visited_urls s) \<le> max_pages cfg"
    by simp_all
  assume "fcard (visited_urls s) = max_pages cfg"
  then have stop: "\<not> loop_cond cfg s"
    by (simp add: loop_cond_def)
  with b show "boundary lib cfg d (Suc n) (fresh cfg) = None"
    by (simp add: boundary_Suc_last del: boundary.simps)
  from stop show "process_queue lib cfg d s = Inr s"
    by (rule process_queue_stop)
next
  obtain s' where r: "process_queue lib cfg d (fresh cfg) = Inr s'"
    using process_queue_total by blast
  from process_queue_boundary [OF r] obtain n where
    b: "boundary lib cfg d n (fresh cfg) = Some s'" and stop: "\<not> loop_cond cfg s'"
    by blast
  from boundary_fresh_count [OF b] stop
  have "length (scraped_data s') = fcard (visited_urls s')
        \<and> fcard (visited_urls s') \<le> max_pages cfg
        \<and> (queue s' = [] \<or> fcard (visited_urls s') = max_pages cfg)"
    by (auto simp: loop_cond_def)
  with r show "\<exists>s'. process_queue lib cfg d (fresh cfg) = Inr s'
         \<and> length (scraped_data s') = fcard (visited_urls s')
         \<and> fcard (visited_urls s') \<le> max_pages cfg
         \<and> (queue s' = [] \<or> fcard (visited_urls s') = max_pages cfg)"
    by blast
qed

text \<open>The theorem on the example site.\<close>

theorem results_match_visited_within_budget_witness:
  "boundary ex_lib (ex_cfg ''https://example.com'' 1 False) ''example.com'' (Suc 0)
     (fresh (ex_cfg ''https://example.com'' 1 False)) = Some ex_s1
   \<and> fcard (visited_urls ex_s1) = max_pages (ex_cfg ''https://example.com'' 1 False)
   \<and> length (scraped_data ex_s1) = fcard (visited_urls ex_s1)
   \<and> boundary ex_lib (ex_cfg ''https://example.com'' 1 False) ''example.com'' (Suc (Suc 0))
       (fresh (ex_cfg ''https://example.com'' 1 False)) = None
   \<and> process_queue ex_lib (ex_cfg ''https://example.com'' 1 False) ''example.com'' ex_s1
       = Inr ex_s1"
proof -
  let ?cfg = "ex_cfg ''https://example.com'' 1 False"
  have b: "boundary ex_lib ?cfg ''example.com'' (Suc 0) (fresh ?cfg) = Some ex_s1"
    by (rule ex_boundary_1) simp
  have m: "fcard (visited_urls ex_s1) = max_pages ?cfg"
    by (simp add: ex_counts ex_cfg_def)
  from results_match_visited_within_budget [of ex_lib ?cfg "''example.com''"]
  have "\<forall>n s. boundary ex_lib ?cfg ''example.com'' n (fresh ?cfg) = Some s \<longrightarrow>
      length (scraped_data s) = fcard (visited_urls s)
      \<and> fcard (visited_urls s) \<le> max_pages ?cfg
      \<and> (fcard (visited_urls s) = max_pages ?cfg \<longrightarrow>
           boundary ex_lib ?cfg ''example.com'' (Suc n) (fresh ?cfg) = None
           \<and> process_queue ex_lib ?cfg ''example.com'' s = Inr s)"
    by (rule conjunct1)
  with b m show ?thesis by blast
qed

text \<open>
  Claim C2. In every run, at every iteration boundary the URLs of the records
  are pairwise distinct and are exactly the visited set; a dequeued URL that is
  already visited is skipped, the iteration only removes it from the queue; and
  an iteration that changes the visited set inserts one URL that was not in it
  and appends the one record of that URL.
\<close>

theorem no_url_visited_twice:
  "(\<forall>n s. boundary lib cfg d n (fresh cfg) = Some s \<longrightarrow>
      distinct (map url (scraped_data s))
      \<and> set (map url (scraped_data s)) = fset (visited_urls s))
   \<and> (\<forall>s cur rest. queue s = cur # rest \<and> cur |\<in>| visited_urls s \<longrightarrow>
         loop_body lib cfg d s = Inr (s\<lparr>queue := rest\<rparr>))
   \<and> (\<forall>s s'. loop_body lib cfg d s = Inr s' \<and> visited_urls s' \<noteq> visited_urls s \<longrightarrow>
         (\<exists>cur. cur |\<notin>| visited_urls s \<and> visited_urls s' = finsert cur (visited_urls s)
            \<and> scraped_data s' = scraped_data s @ [scrape_page lib (length (scraped_data s)) cur]))
   \<and> (\<exists>s'. process_queue lib cfg d (fresh cfg) = Inr s'
         \<and> distinct (map url (scraped_data s'))
         \<and> set (map url (scraped_data s')) = fset (visited_urls s'))"
proof (intro conjI allI impI)
  fix n s
  assume b: "boundary lib cfg d n (fresh cfg) = Some s"
  from boundary_fresh_urls [OF b]
  show "distinct (map url (scraped_data s))"
    and "set (map url (scraped_data s)) = fset (visited_urls s)"
    by simp_all
next
  fix s :: session_state and cur rest
  assume "queue s = cur # rest \<and> cur |\<in>| visited_urls s"
  then show "loop_body lib cfg d s = Inr (s\<lparr>queue := rest\<rparr>)"
    by (simp add: loop_body_def)
next
  fix s s' :: session_state
  assume a: "loop_body lib cfg d s = Inr s' \<and> visited_urls s' \<noteq> visited_urls s"
  then have "loop_body lib cfg d s = Inr s'" ..
  then show "\<exists>cur. cur |\<notin>| visited_urls s \<and> visited_urls s' = finsert cur (visited_urls s)
            \<and> scraped_data s' = scraped_data s @ [scrape_page lib (length (scraped_data s)) cur]"
  proof (cases rule: loop_body_cases)
    case (skip cur rest)
    with a show ?thesis by simp
  next
    case (visit cur rest)
    then show ?thesis by blast
  qed
next
  obtain s' where r: "process_queue lib cfg d (fresh cfg) = Inr s'"
    using process_queue_total by blast
  from process_queue_boundary [OF r] obtain n where
    b: "boundary lib cfg d n (fresh cfg) = Some s'"
    by blast
  from boundary_fresh_urls [OF b] r
  show "\<exists>s'. process_queue lib cfg d (fresh cfg) = Inr s'
         \<and> distinct (map url (scraped_data s'))
         \<and> set (map url (scraped_data s')) = fset (visited_urls s')"
    by blast
qed

text \<open>The theorem on the example site.\<close>

theorem no_url_visited_twice_witness:
  "boundary ex_lib (ex_cfg ''https://example.com'' 4 False) ''example.com''
     (Suc (Suc (Suc (Suc 0)))) (fresh (ex_cfg ''https://example.com'' 4 False)) = Some ex_s4
   \<and> distinct (map url (scraped_data ex_s4))
   \<and> queue ex_s3 = [''https://example.com/about'']
   \<and> ''https://example.com/about'' |\<in>| visited_urls ex_s3
   \<and> loop_body ex_lib (ex_cfg ''https://example.com'' 4 False) ''example.com'' ex_s3
       = Inr (ex_s3\<lparr>queue := []\<rparr>)
   \<and> loop_body ex_lib (ex_cfg ''https://example.com'' 4 False) ''example.com'' ex_s1
       = Inr ex_s2
   \<and> visited_urls ex_s2 \<noteq> visited_urls ex_s1
   \<and> (\<exists>cur. cur |\<notin>| visited_urls ex_s1
         \<and> visited_urls ex_s2 = finsert cur (visited_urls ex_s1)
         \<and> scraped_data ex_s2 =
             scraped_data ex_s1 @ [scrape_page ex_lib (length (scraped_data ex_s1)) cur])"
proof -
  let ?cfg = "ex_cfg ''https://example.com'' 4 False"
  note t = no_url_visited_twice [of ex_lib ?cfg "''example.com''"]
  have b: "boundary ex_lib ?cfg ''example.com'' (Suc (Suc (Suc (Suc 0)))) (fresh ?cfg)
      = Some ex_s4"
    by (rule ex_boundary_4)
  have q: "queue ex_s3 = [''https://example.com/about'']"
    and v: "''https://example.com/about'' |\<in>| visited_urls ex_s3"
    by (simp_all add: ex_s3_def)
  have i: "loop_body ex_lib ?cfg ''example.com'' ex_s1 = Inr ex_s2"
    by (rule ex_iteration_2)
  have n: "visited_urls ex_s2 \<noteq> visited_urls ex_s1"
  proof
    assume "visited_urls ex_s2 = visited_urls ex_s1"
    then have "fcard (visited_urls ex_s2) = fcard (visited_urls ex_s1)" by simp
    then show False by (simp add: ex_counts)
  qed
  from t b have "distinct (map url (scraped_data ex_s4))" by blast
  moreover from t q v have "loop_body ex_lib ?cfg ''example.com'' ex_s3 = Inr (ex_s3\<lparr>queue := []\<rparr>)"
    by blast
  moreover from t i n have "\<exists>cur. cur |\<notin>| visited_urls ex_s1
         \<and> visited_urls ex_s2 = finsert cur (visited_urls ex_s1)
         \<and> scraped_data ex_s2 =
             scraped_data ex_s1 @ [scrape_page ex_lib (length (scraped_data ex_s1)) cur]"
    by blast
  ultimately show ?thesis using b q v i n by blast
qed

text \<open>
  Claim C3. Whenever the \<^verbatim>\<open>try\<close> block of \<^verbatim>\<open>scrape_page\<close> raises, the
  page record is the degraded one: title \<^verbatim>\<open>Error\<close>, the failure text in the
  content, no links, status 0. The run continues: when the unvisited URL at the
  head of the queue fails, the iteration appends the degraded record, marks the
  URL visited and leaves the rest of the queue as it was, and the loop goes on
  from that state; the next URL on the queue, when it is another unvisited one
  and the budget allows, gets its record right after the degraded one. A run
  started on a non-empty valid seed always completes, no exception leaves it,
  and every record of its result is what \<^verbatim>\<open>scrape_page\<close> returned for its
  URL. With a seed whose fetch fails and a positive page budget (1 in
  particular), the run completes with exactly the one degraded record.
\<close>

theorem failed_pages_degrade_and_run_completes:
  "(\<forall>k u e. scrape_body lib k u = Inl e \<longrightarrow>
      scrape_page lib k u =
        \<lparr>url = u, title = Some ''Error'', content = ''Error scraping page: '' @ e,
         links = [], status = 0\<rparr>)
   \<and> (\<forall>s cur rest e.
        queue s = cur # rest \<and> cur |\<notin>| visited_urls s
        \<and> fcard (visited_urls s) < max_pages cfg
        \<and> scrape_body lib (length (scraped_data s)) cur = Inl e \<longrightarrow>
        loop_body lib cfg d s =
          Inr \<lparr>scraped_data = scraped_data s
                   @ [\<lparr>url = cur, title = Some ''Error'',
                       content = ''Error scraping page: '' @ e, links = [], status = 0\<rparr>],
               visited_urls = finsert cur (visited_urls s), queue = rest\<rparr>
        \<and> process_queue lib cfg d s =
            process_queue lib cfg d
              \<lparr>scraped_data = scraped_data s
                   @ [\<lparr>url = cur, title = Some ''Error'',
                       content = ''Error scraping page: '' @ e, links = [], status = 0\<rparr>],
               visited_urls = finsert cur (visited_urls s), queue = rest\<rparr>)
   \<and> (\<forall>s cur v rest e.
        queue s = cur # v # rest \<and> cur \<noteq> v
        \<and> cur |\<notin>| visited_urls s \<and> v |\<notin>| visited_urls s
        \<and> fcard (visited_urls s) + 2 \<le> max_pages cfg
        \<and> scrape_body lib (length (scraped_data s)) cur = Inl e \<longrightarrow>
        (\<exists>s' ps. process_queue lib cfg d s = Inr s'
           \<and> scraped_data s' =
               scraped_data s
               @ [\<lparr>url = cur, title = Some ''Error'',
                   content = ''Error scraping page: '' @ e, links = [], status = 0\<rparr>,
                  scrape_page lib (Suc (length (scraped_data s))) v] @ ps))
   \<and> (base_url cfg \<noteq> [] \<and> is_valid_url lib (base_url cfg) \<longrightarrow>
        (\<exists>s'. start lib cfg s0 = Completed s'
           \<and> (\<forall>k<length (scraped_data s').
                 scraped_data s' ! k = scrape_page lib k (url (scraped_data s' ! k)))))
   \<and> (base_url cfg \<noteq> [] \<and> is_valid_url lib (base_url cfg) \<and> 0 < max_pages cfg
        \<and> fetch lib 0 (base_url cfg) = Inl e0 \<longrightarrow>
        start lib cfg s0 =
          Completed \<lparr>scraped_data =
                       [\<lparr>url = base_url cfg, title = Some ''Error'',
                         content = ''Error scraping page: '' @ e0, links = [], status = 0\<rparr>],
                     visited_urls = {|base_url cfg|}, queue = []\<rparr>)"
proof (intro conjI allI impI)
  fix k u e
  assume "scrape_body lib k u = Inl e"
  then show "scrape_page lib k u =
        \<lparr>url = u, title = Some ''Error'', content = ''Error scraping page: '' @ e,
         links = [], status = 0\<rparr>"
    by (rule scrape_page_failure)
next
  fix s :: session_state and cur rest e
  assume a: "queue s = cur # rest \<and> cur |\<notin>| visited_urls s
        \<and> fcard (visited_urls s) < max_pages cfg
        \<and> scrape_body lib (length (scraped_data s)) cur = Inl e"
  let ?s1 = "\<lparr>scraped_data = scraped_data s
                   @ [\<lparr>url = cur, title = Some ''Error'',
                       content = ''Error scraping page: '' @ e, links = [], status = 0\<rparr>],
               visited_urls = finsert cur (visited_urls s), queue = rest\<rparr>"
  from a show b: "loop_body lib cfg d s = Inr ?s1"
    by (intro loop_body_failed_page) simp_all
  from a have "loop_cond cfg s"
    by (simp add: loop_cond_def)
  then show "process_queue lib cfg d s = process_queue lib cfg d ?s1"
    using b by (rule process_queue_step)
next
  fix s :: session_state and cur v rest e
  assume a: "queue s = cur # v # rest \<and> cur \<noteq> v
        \<and> cur |\<notin>| visited_urls s \<and> v |\<notin>| visited_urls s
        \<and> fcard (visited_urls s) + 2 \<le> max_pages cfg
        \<and> scrape_body lib (length (scraped_data s)) cur = Inl e"
  then have p: "scrape_page lib (length (scraped_data s)) cur =
      \<lparr>url = cur, title = Some ''Error'', content = ''Error scraping page: '' @ e,
       links = [], status = 0\<rparr>"
    by (simp add: scrape_page_failure)
  from a have "cur \<noteq> v" and "queue s = cur # v # rest"
    and "cur |\<notin>| visited_urls s" and "v |\<notin>| visited_urls s"
    and "fcard (visited_urls s) + 2 \<le> max_pages cfg"
    by simp_all
  from two_heads_run [OF this, of lib d]
  show "\<exists>s' ps. process_queue lib cfg d s = Inr s'
           \<and> scraped_data s' =
               scraped_data s
               @ [\<lparr>url = cur, title = Some ''Error'',
                   content = ''Error scraping page: '' @ e, links = [], status = 0\<rparr>,
                  scrape_page lib (Suc (length (scraped_data s))) v] @ ps"
    unfolding p by blast
next
  assume "base_url cfg \<noteq> [] \<and> is_valid_url lib (base_url cfg)"
  then have "base_url cfg \<noteq> []" and "is_valid_url lib (base_url cfg)"
    by simp_all
  then obtain d' s' where r: "process_queue lib cfg d' (fresh cfg) = Inr s'"
    and st: "start lib cfg s0 = Completed s'"
    by (rule start_valid)
  from process_queue_boundary [OF r] obtain n where
    "boundary lib cfg d' n (fresh cfg) = Some s'"
    by blast
  from boundary_fresh_records [OF this] st
  show "\<exists>s'. start lib cfg s0 = Completed s'
           \<and> (\<forall>k<length (scraped_data s').
                 scraped_data s' ! k = scrape_page lib k (url (scraped_data s' ! k)))"
    by blast
next
  assume a: "base_url cfg \<noteq> [] \<and> is_valid_url lib (base_url cfg) \<and> 0 < max_pages cfg
        \<and> fetch lib 0 (base_url cfg) = Inl e0"
  then have "base_url cfg \<noteq> []" and "is_valid_url lib (base_url cfg)"
    by simp_all
  then obtain d' s' where r: "process_queue lib cfg d' (fresh cfg) = Inr s'"
    and st: "start lib cfg s0 = Completed s'"
    by (rule start_valid)
  from a have "fetch lib 0 (base_url cfg) = Inl e0" and "0 < max_pages cfg"
    by simp_all
  from failing_seed_run [OF this, of d'] r st
  show "start lib cfg s0 =
          Completed \<lparr>scraped_data =
                       [\<lparr>url = base_url cfg, title = Some ''Error'',
                         content = ''Error scraping page: '' @ e0, links = [], status = 0\<rparr>],
                     visited_urls = {|base_url cfg|}, queue = []\<rparr>"
    by simp
qed

text \<open>
  The theorem on the example site: the second page of the crawl from the home
  page fails, the third is scraped after it; and a crawl from the failing page.
\<close>

theorem failed_pages_degrade_and_run_completes_witness:
  "scrape_body ex_lib (length (scraped_data ex_s1)) ''https://example.com/about/'' =
     Inl ''404 Client Error: Not Found for url''
   \<and> queue ex_s1 =
       ''https://example.com/about/'' # ''https://example.com/about'' # [''https://example.com/about'']
   \<and> ''https://example.com/about/'' \<noteq> ''https://example.com/about''
   \<and> ''https://example.com/about/'' |\<notin>| visited_urls ex_s1
   \<and> ''https://example.com/about'' |\<notin>| visited_urls ex_s1
   \<and> fcard (visited_urls ex_s1) + 2 \<le> max_pages (ex_cfg ''https://example.com'' 4 False)
   \<and> loop_body ex_lib (ex_cfg ''https://example.com'' 4 False) ''example.com'' ex_s1 = Inr ex_s2
   \<and> queue ex_s2 = [''https://example.com/about'', ''https://example.com/about'']
   \<and> (\<exists>s' ps. process_queue ex_lib (ex_cfg ''https://example.com'' 4 False) ''example.com'' ex_s1
           = Inr s'
         \<and> scraped_data s' = [ex_home_page, ex_missing_page, ex_about_page] @ ps)
   \<and> base_url (ex_cfg ''https://example.com'' 4 False) \<noteq> []
   \<and> is_valid_url ex_lib (base_url (ex_cfg ''https://example.com'' 4 False))
   \<and> start ex_lib (ex_cfg ''https://example.com'' 4 False) ex_s1 = Completed ex_s4
   \<and> scraped_data ex_s4 = [ex_home_page, ex_missing_page, ex_about_page]
   \<and> map status (scraped_data ex_s4) = [200, 0, 200]
   \<and> fetch ex_lib 0 (base_url (ex_cfg ''https://example.com/about/'' 1 False)) =
       Inl ''404 Client Error: Not Found for url''
   \<and> is_valid_url ex_lib (base_url (ex_cfg ''https://example.com/about/'' 1 False))
   \<and> start ex_lib (ex_cfg ''https://example.com/about/'' 1 False) ex_s1 =
       Completed \<lparr>scraped_data = [ex_missing_page],
                  visited_urls = {|''https://example.com/about/''|}, queue = []\<rparr>"
proof -
  let ?cfg = "ex_cfg ''https://example.com'' 4 False"
  let ?cfg1 = "ex_cfg ''https://example.com/about/'' 1 False"
  let ?e = "''404 Client Error: Not Found for url''"
  let ?u = "''https://example.com/about/''"
  let ?v = "''https://example.com/about''"
  note t = failed_pages_degrade_and_run_completes [of ex_lib ?cfg "''example.com''" ex_s1 ?e]
  note t1 = failed_pages_degrade_and_run_completes [of ex_lib ?cfg1 "''example.com''" ex_s1 ?e]
  have b: "scrape_body ex_lib (length (scraped_data ex_s1)) ?u = Inl ?e"
    by (simp add: scrape_body_def ex_fetch_missing)
  have q: "queue ex_s1 = ?u # ?v # [?v]" and n: "?u \<noteq> ?v"
    and nu: "?u |\<notin>| visited_urls ex_s1" and nv: "?v |\<notin>| visited_urls ex_s1"
    by (simp_all add: ex_s1_def)
  have m: "fcard (visited_urls ex_s1) + 2 \<le> max_pages ?cfg"
    and m': "fcard (visited_urls ex_s1) < max_pages ?cfg"
    by (simp_all add: ex_counts ex_cfg_def)
  from t q nu m' b have "loop_body ex_lib ?cfg ''example.com'' ex_s1 =
      Inr \<lparr>scraped_data = scraped_data ex_s1
               @ [\<lparr>url = ?u, title = Some ''Error'',
                   content = ''Error scraping page: '' @ ?e, links = [], status = 0\<rparr>],
           visited_urls = finsert ?u (visited_urls ex_s1), queue = [?v, ?v]\<rparr>"
    by blast
  then have i: "loop_body ex_lib ?cfg ''example.com'' ex_s1 = Inr ex_s2"
    by (simp add: ex_s1_def ex_s2_def ex_missing_page_def)
  have q2: "queue ex_s2 = [?v, ?v]"
    by (simp add: ex_s2_def)
  from t q n nu nv m b have "\<exists>s' ps. process_queue ex_lib ?cfg ''example.com'' ex_s1 = Inr s'
      \<and> scraped_data s' =
          scraped_data ex_s1
          @ [\<lparr>url = ?u, title = Some ''Error'',
              content = ''Error scraping page: '' @ ?e, links = [], status = 0\<rparr>,
             scrape_page ex_lib (Suc (length (scraped_data ex_s1))) ?v] @ ps"
    by blast
  then have r: "\<exists>s' ps. process_queue ex_lib ?cfg ''example.com'' ex_s1 = Inr s'
         \<and> scraped_data s' = [ex_home_page, ex_missing_page, ex_about_page] @ ps"
    by (simp add: ex_s1_def ex_scrape_about ex_missing_page_def)
  have v0: "base_url ?cfg \<noteq> []" "is_valid_url ex_lib (base_url ?cfg)"
    by (simp_all add: ex_cfg_def ex_valid_home)
  have st: "start ex_lib ?cfg ex_s1 = Completed ex_s4"
    by (rule ex_start)
  have sd: "scraped_data ex_s4 = [ex_home_page, ex_missing_page, ex_about_page]"
    and ss: "map status (scraped_data ex_s4) = [200, 0, 200]"
    by (simp_all add: ex_s4_def ex_s3_def ex_home_page_def ex_missing_page_def ex_about_page_def)
  have h: "base_url ?cfg1 \<noteq> [] \<and> is_valid_url ex_lib (base_url ?cfg1) \<and> 0 < max_pages ?cfg1
      \<and> fetch ex_lib 0 (base_url ?cfg1) = Inl ?e"
    by (simp add: ex_cfg_def ex_valid_missing ex_fetch_missing)
  from t1 h have "start ex_lib ?cfg1 ex_s1 =
      Completed \<lparr>scraped_data =
                   [\<lparr>url = base_url ?cfg1, title = Some ''Error'',
                     content = ''Error scraping page: '' @ ?e, links = [], status = 0\<rparr>],
                 visited_urls = {|base_url ?cfg1|}, queue = []\<rparr>"
    by blast
  then have st1: "start ex_lib ?cfg1 ex_s1 =
       Completed \<lparr>scraped_data = [ex_missing_page],
                  visited_urls = {|?u|}, queue = []\<rparr>"
    by (simp add: ex_cfg_def ex_missing_page_def)
  from b q n nu nv m i q2 r v0 st sd ss h st1 show ?thesis
    by blast
qed

text \<open>
  Claim C4. With \<open>d\<close> the host of the seed: when \<^verbatim>\<open>include_external\<close> is
  false, every URL in the queue at any iteration boundary of the run (the seed
  and every URL pushed later) has host \<open>d\<close>, as \<^verbatim>\<open>get_domain\<close> computes
  it; when it is true, every link that is not yet visited is appended to the
  queue, whatever its host.
\<close>

theorem frontier_stays_on_seed_host:
  assumes "get_domain lib (base_url cfg) = Inr d"
  shows "(\<not> include_external cfg \<longrightarrow>
           (\<forall>n s. boundary lib cfg d n (fresh cfg) = Some s \<longrightarrow>
              (\<forall>l\<in>set (queue s). get_domain lib l = Inr d)))
       \<and> (include_external cfg \<longrightarrow>
           (\<forall>vis q ls. enqueue_links lib cfg d vis q ls =
              Inr (q @ filter (\<lambda>l. l |\<notin>| vis) ls)))"
  using assms boundary_fresh_scope enqueue_links_external by blast

text \<open>The theorem on the example site.\<close>

theorem frontier_stays_on_seed_host_witness:
  "get_domain ex_lib (base_url (ex_cfg ''https://example.com'' 4 False)) = Inr ''example.com''
   \<and> \<not> include_external (ex_cfg ''https://example.com'' 4 False)
   \<and> boundary ex_lib (ex_cfg ''https://example.com'' 4 False) ''example.com'' (Suc 0)
       (fresh (ex_cfg ''https://example.com'' 4 False)) = Some ex_s1
   \<and> list_all (\<lambda>l. get_domain ex_lib l = Inr ''example.com'') (queue ex_s1)
   \<and> get_domain ex_lib (base_url (ex_cfg ''https://example.com'' 4 True)) = Inr ''example.com''
   \<and> include_external (ex_cfg ''https://example.com'' 4 True)
   \<and> enqueue_links ex_lib (ex_cfg ''https://example.com'' 4 True) ''example.com''
       {|''https://example.com''|} [] (links ex_home_page) =
       Inr [''https://example.com/about/'', ''https://example.com/about'',
            ''https://example.com/about'', ''https://other.org/'']"
proof -
  let ?cF = "ex_cfg ''https://example.com'' 4 False"
  let ?cT = "ex_cfg ''https://example.com'' 4 True"
  have dF: "get_domain ex_lib (base_url ?cF) = Inr ''example.com''"
    and dT: "get_domain ex_lib (base_url ?cT) = Inr ''example.com''"
    by (simp_all add: ex_cfg_def ex_domain)
  have eF: "\<not> include_external ?cF" and eT: "include_external ?cT"
    by (simp_all add: ex_cfg_def)
  have b: "boundary ex_lib ?cF ''example.com'' (Suc 0) (fresh ?cF) = Some ex_s1"
    by (rule ex_boundary_1) simp
  from frontier_stays_on_seed_host [OF dF] eF b
  have "\<forall>l\<in>set (queue ex_s1). get_domain ex_lib l = Inr ''example.com''"
    by blast
  then have q: "list_all (\<lambda>l. get_domain ex_lib l = Inr ''example.com'') (queue ex_s1)"
    by (simp only: list_all_iff)
  from frontier_stays_on_seed_host [OF dT] eT
  have "enqueue_links ex_lib ?cT ''example.com'' {|''https://example.com''|} [] (links ex_home_page)
      = Inr ([] @ filter (\<lambda>l. l |\<notin>| {|''https://example.com''|}) (links ex_home_page))"
    by blast
  then have x: "enqueue_links ex_lib ?cT ''example.com'' {|''https://example.com''|} []
      (links ex_home_page) =
       Inr [''https://example.com/about/'', ''https://example.com/about'',
            ''https://example.com/about'', ''https://other.org/'']"
    by (simp add: ex_home_page_def)
  from dF eF b q dT eT x show ?thesis by blast
qed

text \<open>
  Claim C5. When nothing raises in \<^verbatim>\<open>scrape_page\<close>, the record it returns
  has a content of at most 5000 characters.
\<close>

theorem successful_content_at_most_5000:
  assumes "scrape_body lib k u = Inr p"
  shows "scrape_page lib k u = p \<and> length (content p) \<le> 5000"
proof
  from assms show "scrape_page lib k u = p"
    by (simp add: scrape_page_def)
  from assms show "length (content p) \<le> 5000"
    by (rule scrape_body_Inr) simp
qed

text \<open>The theorem on the example site.\<close>

theorem successful_content_at_most_5000_witness:
  "scrape_body ex_lib 0 ''https://example.com'' = Inr ex_home_page
   \<and> scrape_page ex_lib 0 ''https://example.com'' = ex_home_page
   \<and> length (content ex_home_page) \<le> 5000"
  using successful_content_at_most_5000 [OF ex_scrape_body_home [of 0]] ex_scrape_body_home [of 0]
  by simp

text \<open>
  Claim C6, as amended. For a page fetched without failure, the content is made
  of the text strings of the document outside script and style elements, each
  one stripped of its leading and trailing whitespace, the empty ones dropped,
  joined by single spaces, and the result cut to its first 5000 characters (the
  cut comes after the joining). Whitespace inside a text string is kept as it
  is: the content is whitespace-collapsed whenever every text string is.
\<close>

theorem content_joins_stripped_strings_then_cuts:
  assumes "scrape_body lib k u = Inr p" and "fetch lib k u = Inr resp"
    and "doc = concat (map (decompose_all [''script'', ''style'']) (soup resp))"
  shows "content p =
           take 5000 (join '' '' (filter (\<lambda>t. t \<noteq> []) (map strip (text_nodes doc))))
       \<and> ((\<forall>t\<in>set (text_nodes doc). ws_collapsed t) \<longrightarrow> ws_collapsed (content p))"
proof -
  from assms have c: "content p = take 5000 (get_text '' '' doc)"
    by (auto elim!: scrape_body_Inr)
  then have "content p =
      take 5000 (join '' '' (filter (\<lambda>t. t \<noteq> []) (map strip (text_nodes doc))))"
    by (simp add: get_text_def all_strings_def)
  moreover have "ws_collapsed (content p)" if "\<forall>t\<in>set (text_nodes doc). ws_collapsed t"
    unfolding c using that by (intro ws_collapsed_take get_text_collapsed)
  ultimately show ?thesis by blast
qed

text \<open>The theorem on the example site.\<close>

theorem content_joins_stripped_strings_then_cuts_witness:
  "scrape_body (page_lib ex_contact) 0 ''https://example.com/contact'' =
     Inr \<lparr>url = ''https://example.com/contact'', title = Some ''No Title'',
          content = ''Mail Menu'', links = [], status = 200\<rparr>
   \<and> fetch (page_lib ex_contact) 0 ''https://example.com/contact'' =
       Inr \<lparr>status_code = 200, soup = ex_contact\<rparr>
   \<and> list_all ws_collapsed
       (text_nodes (concat (map (decompose_all [''script'', ''style'']) ex_contact)))
   \<and> ws_collapsed ''Mail Menu''"
proof -
  let ?p = "\<lparr>url = ''https://example.com/contact'', title = Some ''No Title'',
          content = ''Mail Menu'', links = [], status = 200\<rparr>"
  let ?doc = "concat (map (decompose_all [''script'', ''style'']) ex_contact)"
  have b: "scrape_body (page_lib ex_contact) 0 ''https://example.com/contact'' = Inr ?p"
    by (rule page_scrape_contact)
  have f: "fetch (page_lib ex_contact) 0 ''https://example.com/contact'' =
       Inr \<lparr>status_code = 200, soup = ex_contact\<rparr>"
    by (simp add: page_lib_sel)
  have t: "list_all ws_collapsed (text_nodes ?doc)"
    by (simp add: ex_contact_def text_nodes_def is_space_def)
  then have a: "\<forall>t\<in>set (text_nodes ?doc). ws_collapsed t"
    by (simp only: list_all_iff)
  have d: "?doc = concat (map (decompose_all [''script'', ''style''])
             (soup \<lparr>status_code = 200, soup = ex_contact\<rparr>))"
    by simp
  from content_joins_stripped_strings_then_cuts [OF b f d]
  have "(\<forall>t\<in>set (text_nodes ?doc). ws_collapsed t) \<longrightarrow> ws_collapsed (content ?p)"
    by (rule conjunct2)
  from this a have "ws_collapsed (content ?p)" by (rule mp)
  with b f t show ?thesis by simp
qed

text \<open>
  The content of a page whose only text is \<^verbatim>\<open>a  b\<close>, with two spaces,
  keeps the two spaces: it is not whitespace-collapsed.
\<close>

theorem content_keeps_inner_whitespace:
  "scrape_body (page_lib [Tag ''p'' [] [Text ''a  b'']]) 0 ''https://example.com'' =
     Inr \<lparr>url = ''https://example.com'', title = Some ''No Title'',
          content = ''a  b'', links = [], status = 200\<rparr>
   \<and> \<not> ws_collapsed ''a  b''"
  by (simp add: scrape_body_def page_lib_sel doc_defs)

text \<open>
  Claim C7. A page fetched without failure whose \<^verbatim>\<open>title\<close> element is empty
  gets the title \<^verbatim>\<open>None\<close>: neither a title text nor \<^verbatim>\<open>No Title\<close>.
\<close>

theorem empty_title_gives_none:
  "scrape_body
     (page_lib [Tag ''html'' []
                  [Tag ''head'' [] [Tag ''title'' [] []],
                   Tag ''body'' [] [Tag ''p'' [] [Text ''Hello'']]]])
     0 ''https://example.com'' =
   Inr \<lparr>url = ''https://example.com'', title = None, content = ''Hello'',
        links = [], status = 200\<rparr>"
  by (simp add: scrape_body_def page_lib_sel doc_defs)

text \<open>
  Claim C8. For a page fetched without failure, every entry of \<open>links\<close>
  passes \<^verbatim>\<open>is_valid_url\<close> (it has a scheme and a network location); the
  list is, in document order, the resolved hrefs that pass it, so that a
  resolved href is in the list exactly when it is valid; an iteration only adds
  valid URLs to the queue; and a page whose only anchors are
  \<^verbatim>\<open>mailto:test@example.com\<close> and \<^verbatim>\<open>javascript:void(0)\<close>, which
  \<^verbatim>\<open>urljoin\<close> returns unchanged and which have no network location, has
  no links.
\<close>

theorem links_are_valid_absolute_urls:
  assumes "scrape_body lib k u = Inr p" and "fetch lib k u = Inr resp"
    and "hrefs = find_all_hrefs (concat (map (decompose_all [''script'', ''style'']) (soup resp)))"
  shows "(\<forall>l\<in>set (links p). is_valid_url lib l)
       \<and> (\<forall>h\<in>set hrefs. \<exists>full. urljoin lib u h = Inr full
             \<and> (full \<in> set (links p) \<longleftrightarrow> is_valid_url lib full))
       \<and> links p = filter (is_valid_url lib) (map (\<lambda>h. projr (urljoin lib u h)) hrefs)
       \<and> (hrefs = [''mailto:test@example.com'', ''javascript:void(0)'']
            \<and> (\<forall>h\<in>set hrefs. urljoin lib u h = Inr h
                  \<and> (\<exists>r. urlparse lib h = Inr r \<and> netloc r = []))
            \<longrightarrow> links p = [])
       \<and> (\<forall>s s'. loop_body lib cfg d s = Inr s' \<longrightarrow>
             (\<forall>l\<in>set (queue s'). l \<in> set (queue s) \<or> is_valid_url lib l))"
proof -
  from assms have c: "collect_links lib u [] hrefs = Inr (links p)"
    by (auto elim!: scrape_body_Inr)
  from collect_links_eq [OF c] have
    j: "\<forall>h\<in>set hrefs. \<exists>f. urljoin lib u h = Inr f"
    and l: "links p = filter (is_valid_url lib) (map (\<lambda>h. projr (urljoin lib u h)) hrefs)"
    by simp_all
  have v: "\<forall>l\<in>set (links p). is_valid_url lib l"
    using scrape_body_links_valid [OF assms(1)] by blast
  have m: "\<forall>h\<in>set hrefs. \<exists>full. urljoin lib u h = Inr full
             \<and> (full \<in> set (links p) \<longleftrightarrow> is_valid_url lib full)"
  proof
    fix h
    assume h: "h \<in> set hrefs"
    with j obtain f where f: "urljoin lib u h = Inr f" by blast
    have "f \<in> set (links p) \<longleftrightarrow> is_valid_url lib f"
    proof
      assume "f \<in> set (links p)"
      with v show "is_valid_url lib f" by blast
    next
      assume "is_valid_url lib f"
      moreover from h f have "f \<in> (\<lambda>h. projr (urljoin lib u h)) ` set hrefs"
        by force
      ultimately show "f \<in> set (links p)"
        unfolding l by simp
    qed
    with f show "\<exists>full. urljoin lib u h = Inr full
             \<and> (full \<in> set (links p) \<longleftrightarrow> is_valid_url lib full)"
      by blast
  qed
  have e: "links p = []"
    if "hrefs = [''mailto:test@example.com'', ''javascript:void(0)'']
            \<and> (\<forall>h\<in>set hrefs. urljoin lib u h = Inr h
                  \<and> (\<exists>r. urlparse lib h = Inr r \<and> netloc r = []))"
  proof -
    from that have "\<forall>h\<in>set hrefs. projr (urljoin lib u h) = h \<and> \<not> is_valid_url lib h"
      by (auto simp: is_valid_url_def)
    then have "filter (is_valid_url lib) (map (\<lambda>h. projr (urljoin lib u h)) hrefs) = []"
      by (simp add: filter_empty_conv)
    with l show ?thesis by simp
  qed
  have q: "\<forall>s s'. loop_body lib cfg d s = Inr s' \<longrightarrow>
             (\<forall>l\<in>set (queue s'). l \<in> set (queue s) \<or> is_valid_url lib l)"
  proof (intro allI impI)
    fix s s' :: session_state
    assume "loop_body lib cfg d s = Inr s'"
    then show "\<forall>l\<in>set (queue s'). l \<in> set (queue s) \<or> is_valid_url lib l"
    proof (cases rule: loop_body_cases)
      case (skip cur rest)
      then show ?thesis by simp
    next
      case (visit cur rest)
      then show ?thesis using scrape_page_links_valid by auto
    qed
  qed
  from v m l e q show ?thesis by blast
qed

text \<open>The theorem on the example site.\<close>

theorem links_are_valid_absolute_urls_witness:
  "scrape_body (page_lib ex_contact) 0 ''https://example.com/contact'' =
     Inr \<lparr>url = ''https://example.com/contact'', title = Some ''No Title'',
          content = ''Mail Menu'', links = [], status = 200\<rparr>
   \<and> fetch (page_lib ex_contact) 0 ''https://example.com/contact'' =
       Inr \<lparr>status_code = 200, soup = ex_contact\<rparr>
   \<and> find_all_hrefs (concat (map (decompose_all [''script'', ''style'']) ex_contact)) =
       [''mailto:test@example.com'', ''javascript:void(0)'']
   \<and> list_all (\<lambda>h. urljoin (page_lib ex_contact) ''https://example.com/contact'' h = Inr h
                 \<and> urlparse (page_lib ex_contact) h = Inr \<lparr>scheme = takeWhile (\<lambda>c. c \<noteq> CHR '':'') h, netloc = []\<rparr>)
       [''mailto:test@example.com'', ''javascript:void(0)'']
   \<and> links \<lparr>url = ''https://example.com/contact'', title = Some ''No Title'',
          content = ''Mail Menu'', links = [], status = 200\<rparr> = []"
proof -
  let ?p = "\<lparr>url = ''https://example.com/contact'', title = Some ''No Title'',
          content = ''Mail Menu'', links = [], status = 200\<rparr>"
  let ?hrefs = "[''mailto:test@example.com'', ''javascript:void(0)'']"
  have b: "scrape_body (page_lib ex_contact) 0 ''https://example.com/contact'' = Inr ?p"
    by (rule page_scrape_contact)
  have f: "fetch (page_lib ex_contact) 0 ''https://example.com/contact'' =
       Inr \<lparr>status_code = 200, soup = ex_contact\<rparr>"
    by (simp add: page_lib_sel)
  have h: "?hrefs = find_all_hrefs (concat (map (decompose_all [''script'', ''style''])
             (soup \<lparr>status_code = 200, soup = ex_contact\<rparr>)))"
    by (simp add: ex_contact_def find_all_hrefs_def)
  have a: "list_all (\<lambda>h. urljoin (page_lib ex_contact) ''https://example.com/contact'' h = Inr h
                 \<and> urlparse (page_lib ex_contact) h = Inr \<lparr>scheme = takeWhile (\<lambda>c. c \<noteq> CHR '':'') h, netloc = []\<rparr>)
       ?hrefs"
    by (simp add: page_lib_sel ex_join ex_parse)
  then have "\<forall>h\<in>set ?hrefs. urljoin (page_lib ex_contact) ''https://example.com/contact'' h = Inr h
                  \<and> (\<exists>r. urlparse (page_lib ex_contact) h = Inr r \<and> netloc r = [])"
    by (simp only: list_all_iff) simp
  with links_are_valid_absolute_urls [OF b f h] have "links ?p = []"
    by blast
  with b f h a show ?thesis by simp
qed

text \<open>
  Claim C9. When the seed URL is empty or fails \<^verbatim>\<open>is_valid_url\<close>, the start
  handler reports a validation error and leaves the session state as it was:
  no run starts and no record is produced.
\<close>

theorem invalid_seed_is_rejected:
  assumes "base_url cfg = [] \<or> \<not> is_valid_url lib (base_url cfg)"
  shows "start lib cfg s =
     ValidationError
       (if base_url cfg = [] then ''Please enter a valid URL''
        else ''Please enter a valid URL including http:// or https://'') s"
  using assms by (auto simp: start_def)

text \<open>The theorem on the example site.\<close>

theorem invalid_seed_is_rejected_witness:
  "\<not> is_valid_url ex_lib (base_url (ex_cfg ''example.com'' 10 False))
   \<and> start ex_lib (ex_cfg ''example.com'' 10 False) ex_s1 =
       ValidationError ''Please enter a valid URL including http:// or https://'' ex_s1
   \<and> base_url (ex_cfg [] 10 False) = []
   \<and> start ex_lib (ex_cfg [] 10 False) ex_s1 = ValidationError ''Please enter a valid URL'' ex_s1"
proof -
  have a: "\<not> is_valid_url ex_lib (base_url (ex_cfg ''example.com'' 10 False))"
    by (simp add: ex_cfg_def ex_invalid_bare)
  have b: "base_url (ex_cfg [] 10 False) = []"
    by (simp add: ex_cfg_def)
  from a have "base_url (ex_cfg ''example.com'' 10 False) = []
      \<or> \<not> is_valid_url ex_lib (base_url (ex_cfg ''example.com'' 10 False))" ..
  from invalid_seed_is_rejected [OF this, of ex_s1]
  have c: "start ex_lib (ex_cfg ''example.com'' 10 False) ex_s1 =
       ValidationError ''Please enter a valid URL including http:// or https://'' ex_s1"
    by (simp add: ex_cfg_def)
  from b have "base_url (ex_cfg [] 10 False) = []
      \<or> \<not> is_valid_url ex_lib (base_url (ex_cfg [] 10 False))" ..
  from invalid_seed_is_rejected [OF this, of ex_s1]
  have d: "start ex_lib (ex_cfg [] 10 False) ex_s1 = ValidationError ''Please enter a valid URL'' ex_s1"
    by (simp add: ex_cfg_def)
  from a b c d show ?thesis by blast
qed

text \<open>
  Claim C10. URLs are compared as strings, and the links of a page are the
  results of \<^verbatim>\<open>urljoin\<close> as they are. At the dequeue test: when two
  different strings \<open>u\<close> and \<open>v\<close>, neither of them visited, head the queue
  and the budget allows two more pages, the loop returns and its result holds
  one record for \<open>u\<close> and then one for \<open>v\<close>, both visited. At the enqueue
  test: of the links of a page, exactly those that are not a member of the
  visited set (and are in scope) are appended to the queue. In link collection:
  the links of a page fetched without failure are the \<^verbatim>\<open>urljoin\<close> results
  of its hrefs that pass \<^verbatim>\<open>is_valid_url\<close>, unchanged and in order. For a
  whole run: when the first two in-scope links of the seed page, other than
  the seed, are different strings and the budget is at least three pages, the
  run returns with the record of the seed followed by one record for each of
  them, however alike the two URLs are (a trailing slash is enough to tell them
  apart).
\<close>

theorem distinct_strings_are_distinct_pages:
  "(\<forall>s u v rest.
      u \<noteq> v \<and> queue s = u # v # rest
      \<and> u |\<notin>| visited_urls s \<and> v |\<notin>| visited_urls s
      \<and> fcard (visited_urls s) + 2 \<le> max_pages cfg \<longrightarrow>
      (\<exists>s' ps. process_queue lib cfg d s = Inr s'
         \<and> scraped_data s' =
             scraped_data s
             @ [scrape_page lib (length (scraped_data s)) u,
                scrape_page lib (Suc (length (scraped_data s))) v] @ ps
         \<and> url (scrape_page lib (length (scraped_data s)) u) = u
         \<and> url (scrape_page lib (Suc (length (scraped_data s))) v) = v
         \<and> u |\<in>| visited_urls s' \<and> v |\<in>| visited_urls s'))
   \<and> (\<forall>vis q ls.
        (\<forall>l\<in>set ls. is_valid_url lib l) \<longrightarrow>
        enqueue_links lib cfg d vis q ls =
          Inr (q @ filter (\<lambda>l. l |\<notin>| vis
                     \<and> (include_external cfg \<or> get_domain lib l = Inr d)) ls))
   \<and> (\<forall>k u resp hrefs.
        fetch lib k u = Inr resp
        \<and> hrefs = find_all_hrefs
                    (concat (map (decompose_all [''script'', ''style'']) (soup resp)))
        \<and> (\<forall>h\<in>set hrefs. \<exists>f. urljoin lib u h = Inr f) \<longrightarrow>
        links (scrape_page lib k u) =
          filter (is_valid_url lib) (map (\<lambda>h. projr (urljoin lib u h)) hrefs))
   \<and> (\<forall>resp hrefs u v rest.
        fetch lib 0 (base_url cfg) = Inr resp
        \<and> hrefs = find_all_hrefs
                    (concat (map (decompose_all [''script'', ''style'']) (soup resp)))
        \<and> (\<forall>h\<in>set hrefs. \<exists>f. urljoin lib (base_url cfg) h = Inr f)
        \<and> filter (\<lambda>l. is_valid_url lib l \<and> l \<noteq> base_url cfg
                     \<and> (include_external cfg \<or> get_domain lib l = Inr d))
             (map (\<lambda>h. projr (urljoin lib (base_url cfg) h)) hrefs) = u # v # rest
        \<and> u \<noteq> v \<and> 3 \<le> max_pages cfg \<longrightarrow>
        (\<exists>s' ps. process_queue lib cfg d (fresh cfg) = Inr s'
           \<and> scraped_data s' =
               [scrape_page lib 0 (base_url cfg), scrape_page lib 1 u, scrape_page lib 2 v] @ ps
           \<and> url (scrape_page lib 1 u) = u \<and> url (scrape_page lib 2 v) = v
           \<and> u |\<in>| visited_urls s' \<and> v |\<in>| visited_urls s'))"
proof (intro conjI allI impI)
  fix s :: session_state and u v rest
  assume "u \<noteq> v \<and> queue s = u # v # rest
      \<and> u |\<notin>| visited_urls s \<and> v |\<notin>| visited_urls s
      \<and> fcard (visited_urls s) + 2 \<le> max_pages cfg"
  then have "u \<noteq> v" and "queue s = u # v # rest"
    and "u |\<notin>| visited_urls s" and "v |\<notin>| visited_urls s"
    and "fcard (visited_urls s) + 2 \<le> max_pages cfg"
    by simp_all
  then show "\<exists>s' ps. process_queue lib cfg d s = Inr s'
         \<and> scraped_data s' =
             scraped_data s
             @ [scrape_page lib (length (scraped_data s)) u,
                scrape_page lib (Suc (length (scraped_data s))) v] @ ps
         \<and> url (scrape_page lib (length (scraped_data s)) u) = u
         \<and> url (scrape_page lib (Suc (length (scraped_data s))) v) = v
         \<and> u |\<in>| visited_urls s' \<and> v |\<in>| visited_urls s'"
    by (rule two_heads_run)
next
  fix vis q ls
  assume "\<forall>l\<in>set ls. is_valid_url lib l"
  then show "enqueue_links lib cfg d vis q ls =
          Inr (q @ filter (\<lambda>l. l |\<notin>| vis
                     \<and> (include_external cfg \<or> get_domain lib l = Inr d)) ls)"
    by (rule enqueue_links_valid)
next
  fix k u resp hrefs
  assume "fetch lib k u = Inr resp
        \<and> hrefs = find_all_hrefs
                    (concat (map (decompose_all [''script'', ''style'']) (soup resp)))
        \<and> (\<forall>h\<in>set hrefs. \<exists>f. urljoin lib u h = Inr f)"
  then have "fetch lib k u = Inr resp"
    and "hrefs = find_all_hrefs
                    (concat (map (decompose_all [''script'', ''style'']) (soup resp)))"
    and "\<forall>h\<in>set hrefs. \<exists>f. urljoin lib u h = Inr f"
    by blast+
  then show "links (scrape_page lib k u) =
          filter (is_valid_url lib) (map (\<lambda>h. projr (urljoin lib u h)) hrefs)"
    by (rule scrape_page_links)
next
  fix resp hrefs u v rest
  assume "fetch lib 0 (base_url cfg) = Inr resp
        \<and> hrefs = find_all_hrefs
                    (concat (map (decompose_all [''script'', ''style'']) (soup resp)))
        \<and> (\<forall>h\<in>set hrefs. \<exists>f. urljoin lib (base_url cfg) h = Inr f)
        \<and> filter (\<lambda>l. is_valid_url lib l \<and> l \<noteq> base_url cfg
                     \<and> (include_external cfg \<or> get_domain lib l = Inr d))
             (map (\<lambda>h. projr (urljoin lib (base_url cfg) h)) hrefs) = u # v # rest
        \<and> u \<noteq> v \<and> 3 \<le> max_pages cfg"
  then have "fetch lib 0 (base_url cfg) = Inr resp"
    and "hrefs = find_all_hrefs
                    (concat (map (decompose_all [''script'', ''style'']) (soup resp)))"
    and "\<forall>h\<in>set hrefs. \<exists>f. urljoin lib (base_url cfg) h = Inr f"
    and "filter (\<lambda>l. is_valid_url lib l \<and> l \<noteq> base_url cfg
                     \<and> (include_external cfg \<or> get_domain lib l = Inr d))
             (map (\<lambda>h. projr (urljoin lib (base_url cfg) h)) hrefs) = u # v # rest"
    and "u \<noteq> v" and "3 \<le> max_pages cfg"
    by blast+
  then show "\<exists>s' ps. process_queue lib cfg d (fresh cfg) = Inr s'
           \<and> scraped_data s' =
               [scrape_page lib 0 (base_url cfg), scrape_page lib 1 u, scrape_page lib 2 v] @ ps
           \<and> url (scrape_page lib 1 u) = u \<and> url (scrape_page lib 2 v) = v
           \<and> u |\<in>| visited_urls s' \<and> v |\<in>| visited_urls s'"
    by (rule seed_links_run)
qed

text \<open>
  The theorem on the example site, whose home page links to
  \<^verbatim>\<open>/about/\<close> and \<^verbatim>\<open>/about\<close>.
\<close>

theorem distinct_strings_are_distinct_pages_witness:
  "fetch ex_lib 0 (base_url (ex_cfg ''https://example.com'' 4 False)) =
     Inr \<lparr>status_code = 200, soup = ex_home\<rparr>
   \<and> list_all (\<lambda>h. urljoin ex_lib ''https://example.com'' h
                    = Inr (projr (urljoin ex_lib ''https://example.com'' h)))
       (find_all_hrefs (concat (map (decompose_all [''script'', ''style'']) ex_home)))
   \<and> filter (\<lambda>l. is_valid_url ex_lib l \<and> l \<noteq> ''https://example.com''
               \<and> get_domain ex_lib l = Inr ''example.com'')
       (map (\<lambda>h. projr (urljoin ex_lib ''https://example.com'' h))
          (find_all_hrefs (concat (map (decompose_all [''script'', ''style'']) ex_home))))
     = ''https://example.com/about/'' # ''https://example.com/about'' # [''https://example.com/about'']
   \<and> ''https://example.com/about/'' \<noteq> ''https://example.com/about''
   \<and> 3 \<le> max_pages (ex_cfg ''https://example.com'' 4 False)
   \<and> (\<exists>s' ps. process_queue ex_lib (ex_cfg ''https://example.com'' 4 False) ''example.com''
           (fresh (ex_cfg ''https://example.com'' 4 False)) = Inr s'
         \<and> scraped_data s' = [ex_home_page, ex_missing_page, ex_about_page] @ ps
         \<and> ''https://example.com/about/'' |\<in>| visited_urls s'
         \<and> ''https://example.com/about'' |\<in>| visited_urls s')
   \<and> process_queue ex_lib (ex_cfg ''https://example.com'' 4 False) ''example.com''
       (fresh (ex_cfg ''https://example.com'' 4 False)) = Inr ex_s4
   \<and> map url (scraped_data ex_s4) =
       [''https://example.com'', ''https://example.com/about/'', ''https://example.com/about'']
   \<and> is_valid_url ex_lib ''https://example.com/about/''
   \<and> ''https://example.com/about/''
       |\<notin>| {|''https://example.com/about'', ''https://example.com''|}
   \<and> enqueue_links ex_lib (ex_cfg ''https://example.com'' 4 False) ''example.com''
       {|''https://example.com/about'', ''https://example.com''|} []
       [''https://example.com/about/'', ''https://example.com/about''] =
       Inr [''https://example.com/about/'']
   \<and> links (scrape_page ex_lib 0 ''https://example.com'') =
       [''https://example.com/about/'', ''https://example.com/about'',
        ''https://example.com/about'', ''https://other.org/'']"
proof -
  let ?cfg = "ex_cfg ''https://example.com'' 4 False"
  let ?seed = "''https://example.com''"
  let ?u = "''https://example.com/about/''"
  let ?v = "''https://example.com/about''"
  let ?hrefs = "find_all_hrefs (concat (map (decompose_all [''script'', ''style'']) ex_home))"
  note t = distinct_strings_are_distinct_pages [of ?cfg ex_lib "''example.com''"]
  note enq = t [THEN conjunct2, THEN conjunct1, THEN spec, THEN spec, THEN spec, THEN mp]
  note col = t [THEN conjunct2, THEN conjunct2, THEN conjunct1, rule_format]
  note run2 = t [THEN conjunct2, THEN conjunct2, THEN conjunct2, rule_format]
  have bu: "base_url ?cfg = ?seed" and ie: "\<not> include_external ?cfg"
    and mp: "3 \<le> max_pages ?cfg"
    by (simp_all add: ex_cfg_def)
  have f: "fetch ex_lib 0 (base_url ?cfg) = Inr \<lparr>status_code = 200, soup = ex_home\<rparr>"
    by (simp add: bu ex_lib_sel ex_fetch_def)
  have h: "?hrefs = find_all_hrefs (concat (map (decompose_all [''script'', ''style''])
             (soup \<lparr>status_code = 200, soup = ex_home\<rparr>)))"
    by simp
  have j: "list_all (\<lambda>h. urljoin ex_lib ?seed h = Inr (projr (urljoin ex_lib ?seed h))) ?hrefs"
    by (simp add: ex_home_hrefs ex_lib_sel ex_join)
  then have j': "\<forall>h\<in>set ?hrefs. \<exists>f. urljoin ex_lib (base_url ?cfg) h = Inr f"
    unfolding bu list_all_iff by blast
  have fl: "filter (\<lambda>l. is_valid_url ex_lib l \<and> l \<noteq> ?seed
               \<and> get_domain ex_lib l = Inr ''example.com'')
       (map (\<lambda>h. projr (urljoin ex_lib ?seed h)) ?hrefs) = ?u # ?v # [?v]"
    by (simp add: ex_home_hrefs ex_lib_sel ex_join is_valid_url_def get_domain_def ex_parse)
  then have fl': "filter (\<lambda>l. is_valid_url ex_lib l \<and> l \<noteq> base_url ?cfg
               \<and> (include_external ?cfg \<or> get_domain ex_lib l = Inr ''example.com''))
       (map (\<lambda>h. projr (urljoin ex_lib (base_url ?cfg) h)) ?hrefs) = ?u # ?v # [?v]"
    by (simp add: bu ie)
  have n: "?u \<noteq> ?v" by simp
  from run2 [OF conjI [OF f conjI [OF h conjI [OF j' conjI [OF fl' conjI [OF n mp]]]]]]
  have "\<exists>s' ps. process_queue ex_lib ?cfg ''example.com'' (fresh ?cfg) = Inr s'
           \<and> scraped_data s' =
               [scrape_page ex_lib 0 (base_url ?cfg), scrape_page ex_lib 1 ?u,
                scrape_page ex_lib 2 ?v] @ ps
           \<and> url (scrape_page ex_lib 1 ?u) = ?u \<and> url (scrape_page ex_lib 2 ?v) = ?v
           \<and> ?u |\<in>| visited_urls s' \<and> ?v |\<in>| visited_urls s'" .
  then have r: "\<exists>s' ps. process_queue ex_lib ?cfg ''example.com'' (fresh ?cfg) = Inr s'
         \<and> scraped_data s' = [ex_home_page, ex_missing_page, ex_about_page] @ ps
         \<and> ?u |\<in>| visited_urls s' \<and> ?v |\<in>| visited_urls s'"
    by (simp add: bu ex_scrape_home ex_scrape_about ex_scrape_missing) blast
  have run: "process_queue ex_lib ?cfg ''example.com'' (fresh ?cfg) = Inr ex_s4"
    by (rule ex_run)
  have urls: "map url (scraped_data ex_s4) = [?seed, ?u, ?v]"
    by (simp add: ex_s4_def ex_s3_def ex_home_page_def ex_missing_page_def ex_about_page_def)
  have vu: "is_valid_url ex_lib ?u" by (rule ex_valid_missing)
  have vv: "is_valid_url ex_lib ?v"
    by (simp add: is_valid_url_def ex_lib_sel ex_parse)
  have nin: "?u |\<notin>| {|?v, ?seed|}" by simp
  from vu vv have "\<forall>l\<in>set [?u, ?v]. is_valid_url ex_lib l" by simp
  from enq [OF this] have "enqueue_links ex_lib ?cfg ''example.com'' {|?v, ?seed|} [] [?u, ?v] =
      Inr ([] @ filter (\<lambda>l. l |\<notin>| {|?v, ?seed|}
                 \<and> (include_external ?cfg \<or> get_domain ex_lib l = Inr ''example.com'')) [?u, ?v])" .
  then have e: "enqueue_links ex_lib ?cfg ''example.com'' {|?v, ?seed|} [] [?u, ?v] = Inr [?u]"
    by (simp add: ie ex_domain)
  from col [OF conjI [OF f conjI [OF h j']]]
  have "links (scrape_page ex_lib 0 (base_url ?cfg)) =
      filter (is_valid_url ex_lib) (map (\<lambda>h. projr (urljoin ex_lib (base_url ?cfg) h)) ?hrefs)" .
  then have l: "links (scrape_page ex_lib 0 ?seed) = [?u, ?v, ?v, ''https://other.org/'']"
    by (simp add: bu ex_home_hrefs ex_lib_sel ex_join is_valid_url_def ex_parse)
  from f j fl n mp r run urls vu nin e l show ?thesis
    by (intro conjI)
qed

end
